theory Spec2Isabelle
  imports Main "HOL-Library.Word" "HOL-Library.Sublist" "HOL-Library.Multiset"
begin

section \<open>JavaScript strings\<close>

text \<open>
  A JavaScript string is a sequence of UTF-16 code units. The functions below are the
  library methods that \<open>handleProcessImages\<close> in \<open>src/App.tsx\<close> calls on strings and
  arrays: \<open>String.prototype.trim\<close>, \<open>split\<close>, \<open>startsWith\<close>, \<open>Array.prototype.join\<close>,
  and the decimal rendering of a number inside a template literal.
\<close>

type_synonym code_unit = "16 word"
type_synonym jsstring = "code_unit list"

definition js :: "string \<Rightarrow> jsstring" where
  \<comment> \<open>a string literal of the source, as code units\<close>
  "js s = map (\<lambda>c. of_nat (of_char c)) s"

definition LF :: code_unit where
  "LF = 0x0A"

definition isWhiteSpace :: "code_unit \<Rightarrow> bool" where
  \<comment> \<open>what \<open>trim\<close> removes: ECMAScript WhiteSpace (TAB, VT, FF, SP, NBSP, ZWNBSP and the
      space separators of Unicode) and LineTerminator (LF, CR, LS, PS)\<close>
  "isWhiteSpace c = (c \<in> {0x09, 0x0A, 0x0B, 0x0C, 0x0D, 0x20, 0xA0, 0x1680,
      0x2000, 0x2001, 0x2002, 0x2003, 0x2004, 0x2005, 0x2006, 0x2007, 0x2008, 0x2009,
      0x200A, 0x2028, 0x2029, 0x202F, 0x205F, 0x3000, 0xFEFF})"

definition trim :: "jsstring \<Rightarrow> jsstring" where
  "trim s = rev (dropWhile isWhiteSpace (rev (dropWhile isWhiteSpace s)))"

fun split :: "code_unit \<Rightarrow> jsstring \<Rightarrow> jsstring list" where
  \<comment> \<open>\<open>s.split(sep)\<close> for a separator of one code unit; the result is never empty\<close>
  "split sep [] = [[]]"
| "split sep (c # cs) =
     (if c = sep then [] # split sep cs
      else (case split sep cs of
              [] \<Rightarrow> [[c]]
            | l # ls \<Rightarrow> (c # l) # ls))"

definition startsWith :: "jsstring \<Rightarrow> jsstring \<Rightarrow> bool" where
  \<comment> \<open>\<open>s.startsWith(p)\<close>: code unit by code unit, case-sensitive\<close>
  "startsWith s p = prefix p s"

fun join :: "jsstring \<Rightarrow> jsstring list \<Rightarrow> jsstring" where
  "join sep [] = []"
| "join sep [x] = x"
| "join sep (x # y # ys) = x @ sep @ join sep (y # ys)"

definition digit :: "nat \<Rightarrow> code_unit" where
  "digit d = of_nat (48 + d)"

fun toString :: "nat \<Rightarrow> jsstring" where
  \<comment> \<open>a non-negative integer inside a template literal: its decimal digits\<close>
  "toString n = (if n < 10 then [digit n] else toString (n div 10) @ [digit (n mod 10)])"

declare toString.simps [simp del]

definition truthy :: "jsstring \<Rightarrow> bool" where
  \<comment> \<open>a string in a condition: the empty string is falsy\<close>
  "truthy s = (s \<noteq> [])"

section \<open>Data model (\<open>src/types.ts\<close>) and component state\<close>

datatype status = Pending | Processing | Completed | Error

text \<open>
  \<open>ProcessedImage\<close>: the \<open>File\<close> object is opaque here (type \<open>'f\<close>); the optional
  \<open>errorMessage\<close> is \<open>None\<close> while the property is absent.
\<close>

record 'f ProcessedImage =
  id' :: jsstring
  file' :: 'f
  previewUrl :: jsstring
  originalName :: jsstring
  newName :: jsstring
  status :: status
  errorMessage :: "jsstring option"

text \<open>The four \<open>useState\<close> cells of the \<open>App\<close> component.\<close>

record 'f app_state =
  images :: "'f ProcessedImage list"
  itemCodes :: jsstring
  error :: "jsstring option"
  isProcessing :: bool

section \<open>\<open>handleProcessImages\<close>: parsing and matching\<close>

definition parseCodes :: "jsstring \<Rightarrow> jsstring list" where
  \<comment> \<open>line 30: \<open>itemCodes.split('\n').filter(c => c.trim() !== '')\<close>\<close>
  "parseCodes raw = filter (\<lambda>c. trim c \<noteq> []) (split LF raw)"

type_synonym 'f matching = "(jsstring \<rightharpoonup> jsstring) \<times> 'f ProcessedImage list"

fun firstPass :: "jsstring list \<Rightarrow> 'f ProcessedImage list \<Rightarrow> 'f matching \<Rightarrow> 'f matching" where
  \<comment> \<open>lines 48-55, the loop over \<open>pendingImages\<close>; the pair is
      \<open>(imageToCodeMap, unmatchedImages)\<close>\<close>
  "firstPass codes [] acc = acc"
| "firstPass codes (image' # rest) (imageToCodeMap, unmatchedImages) =
     (case find (\<lambda>code. startsWith (originalName image') (trim code)) codes of
        Some matchingCode \<Rightarrow>
          if truthy matchingCode
          then firstPass codes rest
                 (imageToCodeMap(id' image' \<mapsto> trim matchingCode), unmatchedImages)
          else firstPass codes rest (imageToCodeMap, unmatchedImages @ [image'])
      | None \<Rightarrow> firstPass codes rest (imageToCodeMap, unmatchedImages @ [image']))"

fun assignAll ::
  "jsstring \<Rightarrow> 'f ProcessedImage list \<Rightarrow> (jsstring \<rightharpoonup> jsstring) \<Rightarrow> (jsstring \<rightharpoonup> jsstring)" where
  \<comment> \<open>lines 62-64\<close>
  "assignAll singleCode [] imageToCodeMap = imageToCodeMap"
| "assignAll singleCode (image' # rest) imageToCodeMap =
     assignAll singleCode rest (imageToCodeMap(id' image' \<mapsto> singleCode))"

definition secondPass :: "jsstring list \<Rightarrow> 'f matching \<Rightarrow> 'f matching" where
  \<comment> \<open>lines 60-66\<close>
  "secondPass codes acc =
     (case acc of (imageToCodeMap, unmatchedImages) \<Rightarrow>
        if length unmatchedImages > 0 \<and> length codes = 1
        then (assignAll (trim (codes ! 0)) unmatchedImages imageToCodeMap, [])
        else (imageToCodeMap, unmatchedImages))"

definition matchImages :: "jsstring list \<Rightarrow> 'f ProcessedImage list \<Rightarrow> 'f matching" where
  \<comment> \<open>lines 42-66: both passes, from the empty map and the empty array\<close>
  "matchImages codes pendingImages =
     secondPass codes (firstPass codes pendingImages (Map.empty, []))"

definition noCodesMessage :: jsstring where
  "noCodesMessage = js ''Please provide at least one item code.''"

definition unmatchedHead :: jsstring where
  "unmatchedHead = js ''Could not find a matching item code for some images (e.g., ''"

definition unmatchedTail :: jsstring where
  "unmatchedTail = js ''). Please ensure image filenames start with a provided item code, or provide only one item code to apply to all images.''"

definition unmatchedMessage :: "'f ProcessedImage list \<Rightarrow> jsstring" where
  \<comment> \<open>lines 70-72; \<open>unmatchedHead\<close> and \<open>unmatchedTail\<close> are the fixed text of the template\<close>
  "unmatchedMessage unmatchedImages =
     (let unmatchedNames = join (js '', '') (take 3 (map originalName unmatchedImages));
          extraMessage =
            (if length unmatchedImages > 3
             then js '' and '' @ toString (length unmatchedImages - 3) @ js '' more''
             else [])
      in unmatchedHead @ unmatchedNames @ extraMessage @ unmatchedTail)"

section \<open>\<open>handleProcessImages\<close>: the \<open>setImages\<close> updaters\<close>

definition markProcessing :: "'f ProcessedImage list \<Rightarrow> 'f ProcessedImage list" where
  \<comment> \<open>lines 79-81\<close>
  "markProcessing currentImages =
     map (\<lambda>img. if status img = Pending then img\<lparr>status := Processing\<rparr> else img) currentImages"

definition markCompleted ::
  "'f ProcessedImage \<Rightarrow> jsstring \<Rightarrow> 'f ProcessedImage list \<Rightarrow> 'f ProcessedImage list" where
  \<comment> \<open>lines 100-104, the \<open>then\<close> callback with the resolved \<open>newName\<close>\<close>
  "markCompleted image' name currentImages =
     map (\<lambda>img. if id' img = id' image'
                 then img\<lparr>status := Completed, newName := trim name\<rparr> else img) currentImages"

definition markError ::
  "'f ProcessedImage \<Rightarrow> jsstring \<Rightarrow> 'f ProcessedImage list \<Rightarrow> 'f ProcessedImage list" where
  \<comment> \<open>lines 90-94 and 109-113\<close>
  "markError image' message currentImages =
     map (\<lambda>img. if id' img = id' image'
                 then img\<lparr>status := Error, errorMessage := Some message\<rparr> else img) currentImages"

definition internalErrorMessage :: "'f ProcessedImage \<Rightarrow> jsstring" where
  \<comment> \<open>line 88\<close>
  "internalErrorMessage image' =
     js ''Internal Error: Could not find item code for '' @ originalName image' @ js ''.''"

definition unknownErrorMessage :: jsstring where
  \<comment> \<open>line 108\<close>
  "unknownErrorMessage = js ''An unknown error occurred during processing.''"

text \<open>
  A launched call \<open>renameImage(image.file, itemCode)\<close> is the pair of the image its
  callbacks close over and the code passed.
\<close>

type_synonym 'f call = "'f ProcessedImage \<times> jsstring"

fun launch ::
  "(jsstring \<rightharpoonup> jsstring) \<Rightarrow> 'f ProcessedImage list \<Rightarrow> 'f ProcessedImage list \<Rightarrow>
     'f ProcessedImage list \<times> 'f call list" where
  \<comment> \<open>lines 83-115 up to the calls: for each pending image either the safeguard (an
      updater queued at once and an already resolved promise) or one call of the service\<close>
  "launch imageToCodeMap [] currentImages = (currentImages, [])"
| "launch imageToCodeMap (image' # rest) currentImages =
     (case imageToCodeMap (id' image') of
        None \<Rightarrow>
          launch imageToCodeMap rest (markError image' (internalErrorMessage image') currentImages)
      | Some itemCode \<Rightarrow>
          if \<not> truthy itemCode
          then launch imageToCodeMap rest
                 (markError image' (internalErrorMessage image') currentImages)
          else (case launch imageToCodeMap rest currentImages of
                  (imgs, calls) \<Rightarrow> (imgs, (image', itemCode) # calls)))"

text \<open>
  The synchronous part of \<open>handleProcessImages\<close> (lines 29-115, before any promise
  settles). The closure's \<open>images\<close> and the \<open>currentImages\<close> the updaters receive are the
  same array: the callback is rebuilt whenever \<open>images\<close> changes. The second component is
  \<open>None\<close> when the handler returned early, and the launched calls otherwise.
\<close>

definition handleProcessImages :: "'f app_state \<Rightarrow> 'f app_state \<times> 'f call list option" where
  "handleProcessImages st =
     (let codes = parseCodes (itemCodes st);
          pendingImages = filter (\<lambda>img. status img = Pending) (images st)
      in if length pendingImages = 0 then (st, None)
         else if length codes = 0 then (st\<lparr>error := Some noCodesMessage\<rparr>, None)
         else (case matchImages codes pendingImages of
                 (imageToCodeMap, unmatchedImages) \<Rightarrow>
                   if length unmatchedImages > 0
                   then (st\<lparr>error := Some (unmatchedMessage unmatchedImages)\<rparr>, None)
                   else (case launch imageToCodeMap pendingImages (markProcessing (images st)) of
                           (imgs, calls) \<Rightarrow>
                             (st\<lparr>error := None, isProcessing := True, images := imgs\<rparr>,
                              Some calls))))"

section \<open>Settling the calls\<close>

text \<open>
  The service behind \<open>renameImage\<close> is outside the component: a call is fulfilled with a
  string, or rejected with some value. That value is an \<open>Error\<close>, which has a \<open>message\<close>
  (possibly the empty string), or it is anything else: a string, a plain object, nothing at
  all. \<open>OtherValue\<close> holds the text such a value carries, when it carries one (the
  rejected string itself, the \<open>message\<close> property of a plain object).
\<close>

datatype rejection = ErrorInstance jsstring | OtherValue "jsstring option"

datatype settlement = Fulfilled jsstring | Rejected rejection

definition catchMessage :: "rejection \<Rightarrow> jsstring" where
  \<comment> \<open>line 108: \<open>error instanceof Error ? error.message : "An unknown error ..."\<close>\<close>
  "catchMessage err =
     (case err of ErrorInstance message \<Rightarrow> message | OtherValue carried \<Rightarrow> unknownErrorMessage)"

fun settle :: "'f call \<Rightarrow> settlement \<Rightarrow> 'f ProcessedImage list \<Rightarrow> 'f ProcessedImage list" where
  \<comment> \<open>lines 99-114: the \<open>then\<close> callback and the \<open>catch\<close> callback\<close>
  "settle (image', itemCode) (Fulfilled name) currentImages =
     markCompleted image' name currentImages"
| "settle (image', itemCode) (Rejected err) currentImages =
     markError image' (catchMessage err) currentImages"

fun settleAll ::
  "('f call \<times> settlement) list \<Rightarrow> 'f ProcessedImage list \<Rightarrow> 'f ProcessedImage list" where
  \<comment> \<open>the callbacks run one at a time, in the order in which the calls settle\<close>
  "settleAll [] currentImages = currentImages"
| "settleAll ((c, r) # es) currentImages = settleAll es (settle c r currentImages)"

fun settleTrace ::
  "('f call \<times> settlement) list \<Rightarrow> 'f ProcessedImage list \<Rightarrow> 'f ProcessedImage list list" where
  \<comment> \<open>every value of \<open>images\<close> on the way, the starting one first\<close>
  "settleTrace [] currentImages = [currentImages]"
| "settleTrace ((c, r) # es) currentImages =
     currentImages # settleTrace es (settle c r currentImages)"

text \<open>
  A whole run: the synchronous part, the callbacks in settlement order \<open>es\<close>, and line 118
  once \<open>Promise.all\<close> has resolved. \<open>es\<close> is a settlement order of the run when it holds
  each launched call once: \<open>mset (map fst es) = mset calls\<close>.
\<close>

definition processingRun :: "'f app_state \<Rightarrow> ('f call \<times> settlement) list \<Rightarrow> 'f app_state" where
  "processingRun st es =
     (case handleProcessImages st of
        (st1, None) \<Rightarrow> st1
      | (st1, Some calls) \<Rightarrow> st1\<lparr>images := settleAll es (images st1), isProcessing := False\<rparr>)"

text \<open>
  The values \<open>images\<close> takes during a run, in order: the one the run finds, the one after
  the synchronous part, then one per settlement. The safeguard of lines 87-96 never fires
  (\<open>handleProcessImages_SomeD\<close> below), so the synchronous part queues one updater only.
\<close>

definition runTrace ::
  "'f app_state \<Rightarrow> ('f call \<times> settlement) list \<Rightarrow> 'f ProcessedImage list list" where
  "runTrace st es =
     (case handleProcessImages st of
        (st1, None) \<Rightarrow> [images st, images st1]
      | (st1, Some calls) \<Rightarrow> images st # settleTrace es (images st1))"

section \<open>The other handlers and the events of the component\<close>

text \<open>
  \<open>handleFilesSelected\<close> (lines 15-27). A selected file comes with what the environment
  supplies for it: its name, the renderings of \<open>Date.now()\<close> and \<open>Math.random()\<close> that go
  into the id, and the object URL.
\<close>

record 'f selectedFile =
  selFile :: 'f
  selName :: jsstring
  selNow :: jsstring
  selRandom :: jsstring
  selUrl :: jsstring

definition newImage :: "'f selectedFile \<Rightarrow> 'f ProcessedImage" where
  \<comment> \<open>lines 17-24\<close>
  "newImage f =
     \<lparr>id' = selName f @ js ''-'' @ selNow f @ js ''-'' @ selRandom f,
      file' = selFile f, previewUrl = selUrl f, originalName = selName f, newName = [],
      status = Pending, errorMessage = None\<rparr>"

definition handleFilesSelected :: "'f selectedFile list \<Rightarrow> 'f app_state \<Rightarrow> 'f app_state" where
  "handleFilesSelected files st =
     st\<lparr>error := None, images := images st @ map newImage files\<rparr>"

definition handleClear :: "'f app_state \<Rightarrow> 'f app_state" where
  \<comment> \<open>lines 122-127; revoking the object URLs leaves the state alone\<close>
  "handleClear st = st\<lparr>images := [], itemCodes := [], error := None\<rparr>"

definition initialState :: "'f app_state" where
  \<comment> \<open>lines 10-13\<close>
  "initialState = \<lparr>images = [], itemCodes = [], error = None, isProcessing = False\<rparr>"

definition pendingImagesCount :: "'f app_state \<Rightarrow> nat" where
  \<comment> \<open>line 151\<close>
  "pendingImagesCount st = length (filter (\<lambda>i. status i = Pending) (images st))"

text \<open>
  What the user can do between runs: select files, edit the code text, start a run, clear.
  \<open>handleProcessImages\<close> has one caller, the button of lines 218-227, which is rendered
  only while \<open>pendingImagesCount > 0\<close>: a run is a step only then. While a run is in
  progress every control is disabled (\<open>disabled={isProcessing}\<close>), so a run is one event,
  carrying the order in which its calls settle. The ids made by \<open>handleFilesSelected\<close>
  are taken to be new, as the data model has it: a selection that would repeat an id is
  not a step.
\<close>

datatype 'f event =
    FilesSelected "'f selectedFile list"
  | CodesChanged jsstring
  | ProcessImages "('f call \<times> settlement) list"
  | Clear

definition settlementOrder :: "'f call list \<Rightarrow> ('f call \<times> settlement) list \<Rightarrow> bool" where
  \<comment> \<open>each launched call settles once\<close>
  "settlementOrder calls es = (mset (map fst es) = mset calls)"

definition settledSoFar :: "'f call list \<Rightarrow> ('f call \<times> settlement) list \<Rightarrow> bool" where
  \<comment> \<open>a run under way: some of the launched calls have settled, none twice\<close>
  "settledSoFar calls es = (distinct (map fst es) \<and> set (map fst es) \<subseteq> set calls)"

fun step :: "'f event \<Rightarrow> 'f app_state \<Rightarrow> 'f app_state option" where
  "step (FilesSelected files) st =
     (if distinct (map id' (images st @ map newImage files))
      then Some (handleFilesSelected files st) else None)"
| "step (CodesChanged text) st = Some (st\<lparr>itemCodes := text\<rparr>)"
| "step (ProcessImages es) st =
     (if pendingImagesCount st > 0
      then (case handleProcessImages st of
              (st1, None) \<Rightarrow> if es = [] then Some (processingRun st es) else None
            | (st1, Some calls) \<Rightarrow>
                if settlementOrder calls es then Some (processingRun st es) else None)
      else None)"
| "step Clear st = Some (handleClear st)"

fun steps :: "'f event list \<Rightarrow> 'f app_state \<Rightarrow> 'f app_state option" where
  "steps [] st = Some st"
| "steps (e # evs) st = (case step e st of None \<Rightarrow> None | Some st' \<Rightarrow> steps evs st')"

fun settlementsOf :: "'f event list \<Rightarrow> ('f call \<times> settlement) list" where
  \<comment> \<open>every settlement of every run among the events\<close>
  "settlementsOf [] = []"
| "settlementsOf (ProcessImages es # evs) = es @ settlementsOf evs"
| "settlementsOf (e # evs) = settlementsOf evs"

section \<open>Predicates of the statements\<close>

definition settledItem :: "settlement \<Rightarrow> 'f ProcessedImage \<Rightarrow> 'f ProcessedImage" where
  \<comment> \<open>what the updater of a callback returns for the item it targets\<close>
  "settledItem r img =
     (case r of
        Fulfilled name \<Rightarrow> img\<lparr>status := Completed, newName := trim name\<rparr>
      | Rejected err \<Rightarrow> img\<lparr>status := Error, errorMessage := Some (catchMessage err)\<rparr>)"

text \<open>
  The invariant of an item, given the settlements there have been: a pending or processing
  item has neither field set; a completed item has no \<open>errorMessage\<close> and its \<open>newName\<close> is
  the trimmed answer of a fulfilled call for it; an error item has an empty \<open>newName\<close> and
  its \<open>errorMessage\<close> is what line 108 makes of the rejection of a call for it.
\<close>

definition itemInvariant :: "('f call \<times> settlement) list \<Rightarrow> 'f ProcessedImage \<Rightarrow> bool" where
  "itemInvariant settled img =
     (case status img of
        Pending \<Rightarrow> newName img = [] \<and> errorMessage img = None
      | Processing \<Rightarrow> newName img = [] \<and> errorMessage img = None
      | Completed \<Rightarrow>
          errorMessage img = None
          \<and> (\<exists>c name. (c, Fulfilled name) \<in> set settled \<and> id' (fst c) = id' img
                 \<and> newName img = trim name)
      | Error \<Rightarrow>
          newName img = []
          \<and> (\<exists>c err. (c, Rejected err) \<in> set settled \<and> id' (fst c) = id' img
                 \<and> errorMessage img = Some (catchMessage err)))"

section \<open>Sample data\<close>

definition sampleImage :: "string \<Rightarrow> string \<Rightarrow> status \<Rightarrow> unit ProcessedImage" where
  "sampleImage i name s =
     \<lparr>id' = js i, file' = (), previewUrl = [], originalName = js name, newName = [],
      status = s, errorMessage = None\<rparr>"

definition sampleState :: "unit ProcessedImage list \<Rightarrow> jsstring \<Rightarrow> unit app_state" where
  "sampleState imgs raw = \<lparr>images = imgs, itemCodes = raw, error = None, isProcessing = False\<rparr>"

definition sampleFile :: "unit selectedFile" where
  "sampleFile =
     \<lparr>selFile = (), selName = js ''photo1.jpg'', selNow = js ''17'', selRandom = js ''0.5'',
      selUrl = js ''blob:1''\<rparr>"

definition sampleLoaded :: "unit app_state" where
  \<comment> \<open>one file selected, one code typed\<close>
  "sampleLoaded =
     \<lparr>images = [newImage sampleFile], itemCodes = js ''L1'', error = None,
      isProcessing = False\<rparr>"

definition sampleBatch :: "unit app_state" where
  \<comment> \<open>an item of an earlier run and two pending ones, with a code for each\<close>
  "sampleBatch =
     sampleState
       [(sampleImage ''0'' ''old.jpg'' Completed)\<lparr>newName := js ''Z9_side.jpg''\<rparr>,
        sampleImage ''1'' ''A1_x.jpg'' Pending, sampleImage ''2'' ''A2_y.jpg'' Pending]
       (js ''A1'' @ [LF] @ js ''A2'')"

definition sampleCalls :: "unit call list" where
  "sampleCalls =
     [(sampleImage ''1'' ''A1_x.jpg'' Pending, js ''A1''),
      (sampleImage ''2'' ''A2_y.jpg'' Pending, js ''A2'')]"

definition sampleOrder :: "(unit call \<times> settlement) list" where
  \<comment> \<open>the second call is rejected first, then the first is fulfilled\<close>
  "sampleOrder =
     [((sampleImage ''2'' ''A2_y.jpg'' Pending, js ''A2''),
       Rejected (ErrorInstance (js ''quota exceeded''))),
      ((sampleImage ''1'' ''A1_x.jpg'' Pending, js ''A1''),
       Fulfilled (js '' A1_front.jpg ''))]"

section \<open>Facts about the string functions\<close>

lemma split_not_Nil: "split sep s \<noteq> []"
  by (induction s) (auto split: list.splits)

lemma join_Cons_Cons: "join sep ((c # l) # ls) = c # join sep (l # ls)"
  by (cases ls) simp_all

lemma join_Nil_Cons: "ls \<noteq> [] \<Longrightarrow> join sep ([] # ls) = sep @ join sep ls"
  by (cases ls) simp_all

lemma join_split: "join [sep] (split sep s) = s"
proof (induction s)
  case Nil
  show ?case by simp
next
  case (Cons c cs)
  show ?case
  proof (cases "c = sep")
    case True
    then show ?thesis using Cons by (simp add: join_Nil_Cons split_not_Nil)
  next
    case False
    obtain l ls where "split sep cs = l # ls"
      using split_not_Nil [of sep cs] by (cases "split sep cs") auto
    then show ?thesis using False Cons by (simp add: join_Cons_Cons)
  qed
qed

lemma split_no_sep: "l \<in> set (split sep s) \<Longrightarrow> sep \<notin> set l"
  by (induction s arbitrary: l) (auto split: if_splits list.splits)

lemma split_append_sep: "sep \<notin> set a \<Longrightarrow> split sep (a @ sep # b) = a # split sep b"
  by (induction a) auto

lemma split_no_sep_id: "sep \<notin> set a \<Longrightarrow> split sep a = [a]"
  by (induction a) auto

lemma isWhiteSpace_unat:
  "isWhiteSpace c = (unat c \<in> {0x09, 0x0A, 0x0B, 0x0C, 0x0D, 0x20, 0xA0, 0x1680,
      0x2000, 0x2001, 0x2002, 0x2003, 0x2004, 0x2005, 0x2006, 0x2007, 0x2008, 0x2009,
      0x200A, 0x2028, 0x2029, 0x202F, 0x205F, 0x3000, 0xFEFF})"
  unfolding isWhiteSpace_def by (simp add: word_unat_eq_iff)

lemma trim_prefix_dropWhile: "\<exists>zs. dropWhile isWhiteSpace s = trim s @ zs"
proof -
  let ?ys = "dropWhile isWhiteSpace s"
  have "rev ?ys = takeWhile isWhiteSpace (rev ?ys) @ dropWhile isWhiteSpace (rev ?ys)"
    by simp
  then have "?ys = rev (dropWhile isWhiteSpace (rev ?ys)) @ rev (takeWhile isWhiteSpace (rev ?ys))"
    by (metis rev_append rev_rev_ident)
  then show ?thesis unfolding trim_def by blast
qed

lemma trim_hd: assumes "trim s \<noteq> []" shows "\<not> isWhiteSpace (hd (trim s))"
proof -
  obtain zs where z: "dropWhile isWhiteSpace s = trim s @ zs"
    using trim_prefix_dropWhile by blast
  then have "dropWhile isWhiteSpace s \<noteq> []" using assms by simp
  then have "\<not> isWhiteSpace (hd (dropWhile isWhiteSpace s))" by (rule hd_dropWhile)
  then show ?thesis using z assms by simp
qed

lemma trim_last: assumes "trim s \<noteq> []" shows "\<not> isWhiteSpace (last (trim s))"
proof -
  let ?r = "dropWhile isWhiteSpace (rev (dropWhile isWhiteSpace s))"
  have "?r \<noteq> []" using assms by (simp add: trim_def)
  then have "\<not> isWhiteSpace (hd ?r)" by (rule hd_dropWhile)
  moreover have "last (trim s) = hd ?r" using \<open>?r \<noteq> []\<close> by (simp add: trim_def last_rev)
  ultimately show ?thesis by simp
qed

lemma trim_fixed:
  assumes "s = [] \<or> (\<not> isWhiteSpace (hd s) \<and> \<not> isWhiteSpace (last s))"
  shows "trim s = s"
proof (cases "s = []")
  case True
  then show ?thesis by (simp add: trim_def)
next
  case False
  with assms have h: "\<not> isWhiteSpace (hd s)" and l: "\<not> isWhiteSpace (last s)" by auto
  have 1: "dropWhile isWhiteSpace s = s" using h by (simp add: dropWhile_eq_self_iff)
  have "hd (rev s) = last s" using False by (simp add: hd_rev)
  then have 2: "dropWhile isWhiteSpace (rev s) = rev s" using l by (simp add: dropWhile_eq_self_iff)
  show ?thesis by (simp add: trim_def 1 2)
qed

lemma trim_trim: "trim (trim s) = trim s"
  using trim_fixed [of "trim s"] trim_hd [of s] trim_last [of s] by blast

lemma trim_blank: "(\<forall>c\<in>set s. isWhiteSpace c) \<Longrightarrow> trim s = []"
  by (auto simp: trim_def dest: set_dropWhileD)

lemma trim_eq_Nil_iff: "trim s = [] \<longleftrightarrow> (\<forall>c\<in>set s. isWhiteSpace c)"
proof
  assume "trim s = []"
  then have d: "\<forall>c\<in>set (dropWhile isWhiteSpace s). isWhiteSpace c" by (simp add: trim_def)
  have "set s = set (takeWhile isWhiteSpace s) \<union> set (dropWhile isWhiteSpace s)"
    by (metis set_append takeWhile_dropWhile_id)
  then show "\<forall>c\<in>set s. isWhiteSpace c" using d by (auto dest: set_takeWhileD)
qed (rule trim_blank)

lemma parseCodes_nonblank: "c \<in> set (parseCodes raw) \<Longrightarrow> trim c \<noteq> []"
  by (simp add: parseCodes_def)

lemma parseCodes_nonempty: "[] \<notin> set (parseCodes raw)"
  by (auto simp: parseCodes_def trim_def)

lemma split_blank: "(\<forall>c\<in>set s. isWhiteSpace c) \<Longrightarrow> l \<in> set (split sep s) \<Longrightarrow> (\<forall>c\<in>set l. isWhiteSpace c)"
  by (induction s arbitrary: l) (fastforce split: if_splits list.splits)+

lemma parseCodes_blank: "(\<forall>c\<in>set raw. isWhiteSpace c) \<Longrightarrow> parseCodes raw = []"
  unfolding parseCodes_def filter_empty_conv
  using split_blank trim_blank by blast

section \<open>Facts about matching\<close>

lemma find_SomeD: "find P xs = Some x \<Longrightarrow> P x \<and> x \<in> set xs"
  by (auto simp: find_Some_iff)

lemma find_first_index:
  "i < length xs \<Longrightarrow> P (xs ! i) \<Longrightarrow> (\<forall>j<i. \<not> P (xs ! j)) \<Longrightarrow> find P xs = Some (xs ! i)"
  by (auto simp: find_Some_iff)

lemma firstPass_unmatched:
  "[] \<notin> set codes \<Longrightarrow>
   snd (firstPass codes ps (m, un)) =
     un @ filter (\<lambda>img. \<forall>c\<in>set codes. \<not> startsWith (originalName img) (trim c)) ps"
proof (induction ps arbitrary: m un)
  case Nil
  show ?case by simp
next
  case (Cons p ps)
  show ?case
  proof (cases "find (\<lambda>code. startsWith (originalName p) (trim code)) codes")
    case None
    then have "\<forall>c\<in>set codes. \<not> startsWith (originalName p) (trim c)"
      by (auto simp: find_None_iff)
    then show ?thesis using None Cons by simp
  next
    case (Some c)
    then have "startsWith (originalName p) (trim c)" and "c \<in> set codes"
      using find_SomeD by fast+
    moreover have "truthy c" using \<open>c \<in> set codes\<close> Cons.prems by (auto simp: truthy_def)
    ultimately show ?thesis using Some Cons by auto
  qed
qed

lemma firstPass_frame:
  "k \<notin> id' ` set ps \<Longrightarrow> fst (firstPass codes ps (m, un)) k = m k"
  by (induction ps arbitrary: m un) (auto split: option.splits)

lemma firstPass_assigned:
  "[] \<notin> set codes \<Longrightarrow> distinct (map id' ps) \<Longrightarrow> img \<in> set ps \<Longrightarrow>
   fst (firstPass codes ps (m, un)) (id' img) =
     (case find (\<lambda>code. startsWith (originalName img) (trim code)) codes of
        Some c \<Rightarrow> Some (trim c) | None \<Rightarrow> m (id' img))"
proof (induction ps arbitrary: m un)
  case Nil
  then show ?case by simp
next
  case (Cons p ps)
  show ?case
  proof (cases "img = p")
    case True
    have "id' p \<notin> id' ` set ps" using Cons.prems(2) by auto
    then have fr: "\<And>m un. fst (firstPass codes ps (m, un)) (id' p) = m (id' p)"
      by (rule firstPass_frame)
    show ?thesis
    proof (cases "find (\<lambda>code. startsWith (originalName p) (trim code)) codes")
      case None
      then show ?thesis using True fr by simp
    next
      case (Some c)
      then have "c \<in> set codes" using find_SomeD by fast
      then have "truthy c" using Cons.prems(1) by (auto simp: truthy_def)
      then show ?thesis using True Some fr by simp
    qed
  next
    case False
    then have "img \<in> set ps" using Cons.prems(3) by simp
    have "id' p \<notin> id' ` set ps" using Cons.prems(2) by simp
    then have "id' img \<noteq> id' p" using \<open>img \<in> set ps\<close> by (metis imageI)
    have "\<And>m un. fst (firstPass codes ps (m, un)) (id' img) =
       (case find (\<lambda>code. startsWith (originalName img) (trim code)) codes of
          Some c \<Rightarrow> Some (trim c) | None \<Rightarrow> m (id' img))"
      using Cons.IH [OF Cons.prems(1) _ \<open>img \<in> set ps\<close>] Cons.prems(2) by simp
    then show ?thesis using \<open>id' img \<noteq> id' p\<close>
      by (simp split: option.splits)
  qed
qed

lemma assignAll_lookup:
  "assignAll c un m k = (if k \<in> id' ` set un then Some c else m k)"
  by (induction un arbitrary: m) auto

lemma firstPass_snd:
  "snd (firstPass codes ps (m, un)) =
     un @ filter (\<lambda>img. case find (\<lambda>code. startsWith (originalName img) (trim code)) codes of
                          Some c \<Rightarrow> \<not> truthy c | None \<Rightarrow> True) ps"
  by (induction ps arbitrary: m un) (simp_all split: option.splits)

lemma firstPass_values:
  "\<forall>c\<in>set codes. trim c \<noteq> [] \<Longrightarrow> \<forall>k v. m k = Some v \<longrightarrow> v \<noteq> [] \<Longrightarrow>
   fst (firstPass codes ps (m, un)) k = Some v \<Longrightarrow> v \<noteq> []"
proof (induction ps arbitrary: m un)
  case Nil
  then show ?case by simp
next
  case (Cons p ps)
  show ?case
  proof (cases "find (\<lambda>code. startsWith (originalName p) (trim code)) codes")
    case None
    then show ?thesis using Cons by simp
  next
    case (Some c)
    then have "c \<in> set codes" using find_SomeD by fast
    then have t: "trim c \<noteq> []" using Cons.prems(1) by simp
    show ?thesis
    proof (cases "truthy c")
      case True
      have eq: "firstPass codes (p # ps) (m, un) = firstPass codes ps (m(id' p \<mapsto> trim c), un)"
        using Some True by simp
      have inv: "\<forall>k v. (m(id' p \<mapsto> trim c)) k = Some v \<longrightarrow> v \<noteq> []"
        using Cons.prems(2) t by simp
      have r: "fst (firstPass codes ps (m(id' p \<mapsto> trim c), un)) k = Some v"
        using Cons.prems(3) unfolding eq .
      show ?thesis by (rule Cons.IH [OF Cons.prems(1) inv r])
    next
      case False
      then show ?thesis using Cons Some by simp
    qed
  qed
qed

lemma firstPass_covers_gen:
  "img \<in> set ps \<or> img \<in> set un \<or> id' img \<in> dom m \<Longrightarrow>
   img \<in> set (snd (firstPass codes ps (m, un)))
   \<or> id' img \<in> dom (fst (firstPass codes ps (m, un)))"
proof (induction ps arbitrary: m un)
  case Nil
  then show ?case by auto
next
  case (Cons p ps)
  show ?case
  proof (cases "find (\<lambda>code. startsWith (originalName p) (trim code)) codes")
    case None
    have "img \<in> set ps \<or> img \<in> set (un @ [p]) \<or> id' img \<in> dom m"
      using Cons.prems by auto
    from Cons.IH [OF this] None show ?thesis by simp
  next
    case (Some c)
    show ?thesis
    proof (cases "truthy c")
      case True
      have "img \<in> set ps \<or> img \<in> set un \<or> id' img \<in> dom (m(id' p \<mapsto> trim c))"
        using Cons.prems by auto
      moreover have "firstPass codes (p # ps) (m, un) = firstPass codes ps (m(id' p \<mapsto> trim c), un)"
        using Some True by simp
      ultimately show ?thesis by (simp only: Cons.IH)
    next
      case False
      have "img \<in> set ps \<or> img \<in> set (un @ [p]) \<or> id' img \<in> dom m"
        using Cons.prems by auto
      from Cons.IH [OF this] Some False show ?thesis by simp
    qed
  qed
qed

lemma firstPass_covers:
  "img \<in> set ps \<Longrightarrow>
   img \<in> set (snd (firstPass codes ps (m, un)))
   \<or> id' img \<in> dom (fst (firstPass codes ps (m, un)))"
  by (rule firstPass_covers_gen) simp

lemma matchImages_all_assigned:
  assumes codes: "\<forall>c\<in>set codes. trim c \<noteq> []"
    and res: "matchImages codes ps = (m, [])"
    and img: "img \<in> set ps"
  shows "\<exists>v. m (id' img) = Some v \<and> v \<noteq> []"
proof -
  obtain m1 un1 where fp: "firstPass codes ps (Map.empty, []) = (m1, un1)"
    by (cases "firstPass codes ps (Map.empty, [])") auto
  have vals: "\<And>k v. m1 k = Some v \<Longrightarrow> v \<noteq> []"
    using firstPass_values [OF codes, of Map.empty ps "[]"] fp by simp
  have cov: "img \<in> set un1 \<or> id' img \<in> dom m1"
    using firstPass_covers [OF img, of codes Map.empty "[]"] fp by simp
  show ?thesis
  proof (cases "length un1 > 0 \<and> length codes = 1")
    case True
    then have m: "m = assignAll (trim (codes ! 0)) un1 m1"
      using res fp by (simp add: matchImages_def secondPass_def)
    have "codes ! 0 \<in> set codes" using True by simp
    then have "trim (codes ! 0) \<noteq> []" using codes by blast
    then show ?thesis using m cov vals by (auto simp: assignAll_lookup)
  next
    case False
    then have "m = m1" and "un1 = []"
      using res fp by (auto simp: matchImages_def secondPass_def)
    then show ?thesis using cov vals by auto
  qed
qed

lemma launch_all_assigned:
  "\<forall>img\<in>set ps. \<exists>v. m (id' img) = Some v \<and> v \<noteq> [] \<Longrightarrow>
   launch m ps imgs = (imgs, map (\<lambda>img. (img, the (m (id' img)))) ps)"
  by (induction ps arbitrary: imgs) (auto simp: truthy_def)

lemma handleProcessImages_started:
  assumes "filter (\<lambda>img. status img = Pending) (images st) \<noteq> []"
    and "parseCodes (itemCodes st) \<noteq> []"
    and "matchImages (parseCodes (itemCodes st))
           (filter (\<lambda>img. status img = Pending) (images st)) = (m, [])"
  shows "handleProcessImages st =
           (st\<lparr>error := None, isProcessing := True, images := markProcessing (images st)\<rparr>,
            Some (map (\<lambda>img. (img, the (m (id' img))))
                    (filter (\<lambda>img. status img = Pending) (images st))))"
proof -
  let ?ps = "filter (\<lambda>img. status img = Pending) (images st)"
  have "\<forall>img\<in>set ?ps. \<exists>v. m (id' img) = Some v \<and> v \<noteq> []"
    using matchImages_all_assigned [OF _ assms(3)] parseCodes_nonblank by blast
  then have "launch m ?ps (markProcessing (images st)) =
      (markProcessing (images st), map (\<lambda>img. (img, the (m (id' img)))) ?ps)"
    by (rule launch_all_assigned)
  then show ?thesis using assms by (simp add: handleProcessImages_def Let_def)
qed

lemma handleProcessImages_unmatched:
  assumes "parseCodes (itemCodes st) \<noteq> []"
    and "matchImages (parseCodes (itemCodes st))
           (filter (\<lambda>img. status img = Pending) (images st)) = (m, un)"
    and "un \<noteq> []"
  shows "handleProcessImages st = (st\<lparr>error := Some (unmatchedMessage un)\<rparr>, None)"
proof -
  let ?ps = "filter (\<lambda>img. status img = Pending) (images st)"
  have "set (snd (firstPass (parseCodes (itemCodes st)) ?ps (Map.empty, []))) \<subseteq> set ?ps"
    unfolding firstPass_snd by auto
  moreover have "snd (firstPass (parseCodes (itemCodes st)) ?ps (Map.empty, [])) \<noteq> []"
    using assms(2,3) by (auto simp: matchImages_def secondPass_def split: prod.splits if_splits)
  ultimately have "?ps \<noteq> []" by auto
  then show ?thesis using assms by (simp add: handleProcessImages_def Let_def)
qed

lemma firstPass_single_gen:
  "fst (firstPass [c] ps (m, un)) k = Some v \<Longrightarrow> v = trim c \<or> m k = Some v"
proof (induction ps arbitrary: m un)
  case Nil
  then show ?case by simp
next
  case (Cons p ps)
  show ?case
  proof (cases "startsWith (originalName p) (trim c) \<and> truthy c")
    case True
    then have "fst (firstPass [c] ps (m(id' p \<mapsto> trim c), un)) k = Some v"
      using Cons.prems by simp
    then have "v = trim c \<or> (m(id' p \<mapsto> trim c)) k = Some v"
      by (rule Cons.IH)
    then show ?thesis by (auto split: if_splits)
  next
    case False
    then have "fst (firstPass [c] ps (m, un @ [p])) k = Some v"
      using Cons.prems by (auto split: if_splits)
    then show ?thesis by (rule Cons.IH)
  qed
qed

lemma matchImages_single:
  "snd (matchImages [c] ps) = []
   \<and> (\<forall>img\<in>set ps. fst (matchImages [c] ps) (id' img) = Some (trim c))"
proof -
  obtain m1 un1 where fp: "firstPass [c] ps (Map.empty, []) = (m1, un1)"
    by (cases "firstPass [c] ps (Map.empty, [])") auto
  have vals: "\<And>k v. m1 k = Some v \<Longrightarrow> v = trim c"
    using firstPass_single_gen [of c ps Map.empty "[]"] fp by auto
  have cov: "\<And>img. img \<in> set ps \<Longrightarrow> img \<in> set un1 \<or> id' img \<in> dom m1"
    using firstPass_covers [of _ ps "[c]" Map.empty "[]"] fp by simp
  show ?thesis
  proof (cases "un1 = []")
    case True
    then have "matchImages [c] ps = (m1, [])"
      using fp by (simp add: matchImages_def secondPass_def)
    then show ?thesis using cov vals True by fastforce
  next
    case False
    then have "matchImages [c] ps = (assignAll (trim c) un1 m1, [])"
      using fp by (simp add: matchImages_def secondPass_def)
    then show ?thesis using cov vals by (fastforce simp: assignAll_lookup)
  qed
qed

lemma matchImages_unmatched:
  assumes "[] \<notin> set codes" and "matchImages codes ps = (m, un)" and "un \<noteq> []"
  shows "length codes \<noteq> 1
         \<and> un = filter (\<lambda>img. \<forall>c\<in>set codes. \<not> prefix (trim c) (originalName img)) ps"
proof -
  obtain m1 un1 where fp: "firstPass codes ps (Map.empty, []) = (m1, un1)"
    by (cases "firstPass codes ps (Map.empty, [])") auto
  have "un1 = filter (\<lambda>img. \<forall>c\<in>set codes. \<not> startsWith (originalName img) (trim c)) ps"
    using firstPass_unmatched [OF assms(1), of ps Map.empty "[]"] fp by simp
  moreover have "length codes \<noteq> 1 \<and> un = un1"
    using assms(2,3) fp by (auto simp: matchImages_def secondPass_def split: if_splits)
  ultimately show ?thesis by (simp add: startsWith_def)
qed

lemma handleProcessImages_single_code:
  assumes "parseCodes (itemCodes st) = [c]"
    and "filter (\<lambda>img. status img = Pending) (images st) \<noteq> []"
  shows "handleProcessImages st =
          (st\<lparr>error := None, isProcessing := True, images := markProcessing (images st)\<rparr>,
           Some (map (\<lambda>img. (img, trim c)) (filter (\<lambda>img. status img = Pending) (images st))))"
proof -
  let ?ps = "filter (\<lambda>img. status img = Pending) (images st)"
  obtain m where m: "matchImages [c] ?ps = (m, [])"
    using matchImages_single [of c ?ps] by (cases "matchImages [c] ?ps") auto
  then have "\<forall>img\<in>set ?ps. m (id' img) = Some (trim c)"
    using matchImages_single [of c ?ps] by simp
  then have "map (\<lambda>img. (img, the (m (id' img)))) ?ps = map (\<lambda>img. (img, trim c)) ?ps"
    by (intro map_cong) auto
  then show ?thesis
    using handleProcessImages_started [of st m] assms m by simp
qed

section \<open>Facts about a run\<close>

lemma settle_conv:
  "settle c r imgs = map (\<lambda>img. if id' img = id' (fst c) then settledItem r img else img) imgs"
  by (cases "(c, r, imgs)" rule: settle.cases)
     (auto simp: settledItem_def markCompleted_def markError_def)

lemma id'_settledItem [simp]: "id' (settledItem r img) = id' img"
  by (simp add: settledItem_def split: settlement.splits rejection.splits)

lemma length_settle [simp]: "length (settle c r imgs) = length imgs"
  by (simp add: settle_conv)

lemma length_settleAll [simp]: "length (settleAll es imgs) = length imgs"
  by (induction es arbitrary: imgs) auto

lemma map_id'_settle [simp]: "map id' (settle c r imgs) = map id' imgs"
  by (simp add: settle_conv)

lemma map_id'_settleAll [simp]: "map id' (settleAll es imgs) = map id' imgs"
  by (induction es arbitrary: imgs) auto

lemma settleAll_untouched:
  "i < length imgs \<Longrightarrow> id' (imgs ! i) \<notin> (\<lambda>e. id' (fst (fst e))) ` set es \<Longrightarrow>
   settleAll es imgs ! i = imgs ! i"
proof (induction es arbitrary: imgs)
  case Nil
  show ?case by simp
next
  case (Cons e es)
  obtain c r where e: "e = (c, r)" by (cases e)
  have ne: "id' (imgs ! i) \<noteq> id' (fst c)" using Cons.prems(2) e by auto
  then have s: "settle c r imgs ! i = imgs ! i"
    using Cons.prems(1) by (simp add: settle_conv)
  have "settleAll es (settle c r imgs) ! i = settle c r imgs ! i"
    using Cons.prems s by (intro Cons.IH) auto
  then show ?case using e s by simp
qed

lemma settleAll_hit:
  "i < length imgs \<Longrightarrow> distinct (map (\<lambda>e. id' (fst (fst e))) es) \<Longrightarrow> (c, r) \<in> set es \<Longrightarrow>
   id' (fst c) = id' (imgs ! i) \<Longrightarrow> settleAll es imgs ! i = settledItem r (imgs ! i)"
proof (induction es arbitrary: imgs)
  case Nil
  then show ?case by simp
next
  case (Cons e es)
  obtain c' r' where e: "e = (c', r')" by (cases e)
  show ?case
  proof (cases "(c, r) = (c', r')")
    case True
    then have s: "settle c' r' imgs ! i = settledItem r (imgs ! i)"
      using Cons.prems(1,4) by (simp add: settle_conv)
    have "id' (fst c) \<notin> (\<lambda>e. id' (fst (fst e))) ` set es"
      using Cons.prems(2) e True by auto
    then have "id' (settle c' r' imgs ! i) \<notin> (\<lambda>e. id' (fst (fst e))) ` set es"
      using s Cons.prems(4) by simp
    then have "settleAll es (settle c' r' imgs) ! i = settle c' r' imgs ! i"
      using Cons.prems(1) by (intro settleAll_untouched) auto
    then show ?thesis using e s by simp
  next
    case False
    then have m: "(c, r) \<in> set es" using Cons.prems(3) e by auto
    then have "id' (fst c') \<noteq> id' (fst c)"
      using Cons.prems(2) e by force
    then have s: "settle c' r' imgs ! i = imgs ! i"
      using Cons.prems(1,4) by (simp add: settle_conv)
    have "settleAll es (settle c' r' imgs) ! i = settledItem r (settle c' r' imgs ! i)"
      using Cons.prems m s by (intro Cons.IH) auto
    then show ?thesis using e s by simp
  qed
qed

lemma markProcessing_nth:
  "i < length imgs \<Longrightarrow>
   markProcessing imgs ! i =
     (if status (imgs ! i) = Pending then (imgs ! i)\<lparr>status := Processing\<rparr> else imgs ! i)"
  by (simp add: markProcessing_def)

lemma length_markProcessing [simp]: "length (markProcessing imgs) = length imgs"
  by (simp add: markProcessing_def)

lemma map_id'_markProcessing [simp]: "map id' (markProcessing imgs) = map id' imgs"
  by (simp add: markProcessing_def)

lemma handleProcessImages_SomeD:
  assumes "handleProcessImages st = (st1, Some calls)"
  shows "\<exists>m. filter (\<lambda>img. status img = Pending) (images st) \<noteq> []
           \<and> parseCodes (itemCodes st) \<noteq> []
           \<and> matchImages (parseCodes (itemCodes st))
                (filter (\<lambda>img. status img = Pending) (images st)) = (m, [])
           \<and> st1 = st\<lparr>error := None, isProcessing := True, images := markProcessing (images st)\<rparr>
           \<and> calls = map (\<lambda>img. (img, the (m (id' img))))
                        (filter (\<lambda>img. status img = Pending) (images st))"
proof -
  let ?ps = "filter (\<lambda>img. status img = Pending) (images st)"
  let ?codes = "parseCodes (itemCodes st)"
  obtain m un where mu: "matchImages ?codes ?ps = (m, un)"
    by (cases "matchImages ?codes ?ps") auto
  have p: "?ps \<noteq> []" and c: "?codes \<noteq> []" and u: "un = []"
    using assms mu by (auto simp: handleProcessImages_def Let_def split: if_splits)
  have "handleProcessImages st =
           (st\<lparr>error := None, isProcessing := True, images := markProcessing (images st)\<rparr>,
            Some (map (\<lambda>img. (img, the (m (id' img)))) ?ps))"
    using p c mu u by (intro handleProcessImages_started) auto
  then show ?thesis using assms p c mu u by auto
qed

lemma handleProcessImages_NoneD:
  assumes "handleProcessImages st = (st1, None)"
  shows "images st1 = images st \<and> isProcessing st1 = isProcessing st
         \<and> itemCodes st1 = itemCodes st"
  using assms
  by (auto simp: handleProcessImages_def Let_def split: if_splits prod.splits)

lemma launched_ids:
  assumes "handleProcessImages st = (st1, Some calls)"
  shows "map fst calls = filter (\<lambda>img. status img = Pending) (images st)"
  using handleProcessImages_SomeD [OF assms] by (auto simp: comp_def)

lemma order_ids:
  assumes "settledSoFar calls es" and "distinct (map (\<lambda>c. id' (fst c)) calls)"
  shows "distinct (map (\<lambda>e. id' (fst (fst e))) es)"
proof -
  have "inj_on (\<lambda>c. id' (fst c)) (set calls)"
    using assms(2) by (simp add: distinct_map)
  then have "inj_on (\<lambda>c. id' (fst c)) (set (map fst es))"
    using assms(1) unfolding settledSoFar_def by (auto intro: inj_on_subset)
  then have "distinct (map (\<lambda>c. id' (fst c)) (map fst es))"
    using assms(1) unfolding settledSoFar_def by (simp only: distinct_map)
  then show ?thesis by (simp add: comp_def)
qed

lemma settlementOrder_settledSoFar:
  assumes "settlementOrder calls es" and "distinct calls"
  shows "settledSoFar calls es" and "set (map fst es) = set calls"
proof -
  have m: "mset (map fst es) = mset calls" using assms(1) by (simp add: settlementOrder_def)
  then have "distinct (map fst es)" using assms(2) mset_eq_imp_distinct_iff by blast
  moreover show "set (map fst es) = set calls" using m by (rule mset_eq_setD)
  ultimately show "settledSoFar calls es" by (simp add: settledSoFar_def)
qed

text \<open>The items of a run under way, one by one.\<close>

lemma run_items:
  assumes d: "distinct (map id' (images st))"
    and h: "handleProcessImages st = (st1, Some calls)"
    and o: "settledSoFar calls es"
    and i: "i < length (images st)"
  shows "length (settleAll es (images st1)) = length (images st)"
    and "status (images st ! i) \<noteq> Pending \<Longrightarrow> settleAll es (images st1) ! i = images st ! i"
    and "status (images st ! i) = Pending \<Longrightarrow> ((images st ! i, code), r) \<in> set es \<Longrightarrow>
           settleAll es (images st1) ! i = settledItem r ((images st ! i)\<lparr>status := Processing\<rparr>)"
    and "status (images st ! i) = Pending \<Longrightarrow> images st ! i \<notin> fst ` fst ` set es \<Longrightarrow>
           settleAll es (images st1) ! i = (images st ! i)\<lparr>status := Processing\<rparr>"
proof -
  let ?ps = "filter (\<lambda>img. status img = Pending) (images st)"
  from handleProcessImages_SomeD [OF h] obtain m
    where hm: "st1 = st\<lparr>error := None, isProcessing := True,
                         images := markProcessing (images st)\<rparr>
               \<and> calls = map (\<lambda>img. (img, the (m (id' img)))) ?ps"
    by blast
  have st1: "images st1 = markProcessing (images st)" using hm by simp
  have calls: "calls = map (\<lambda>img. (img, the (m (id' img)))) ?ps" using hm by simp
  have fc: "map fst calls = ?ps" using calls by (simp add: comp_def)
  have dc: "distinct (map (\<lambda>c. id' (fst c)) calls)"
    using d calls by (simp add: comp_def distinct_map_filter)
  have de: "distinct (map (\<lambda>e. id' (fst (fst e))) es)"
    using o dc by (rule order_ids)
  have sub: "fst ` fst ` set es \<subseteq> set ?ps"
  proof -
    have "fst ` set es \<subseteq> set calls" using o by (auto simp: settledSoFar_def)
    then have "fst ` fst ` set es \<subseteq> fst ` set calls" by blast
    also have "fst ` set calls = set ?ps" using fc by (metis set_map)
    finally show ?thesis .
  qed
  have inj: "inj_on id' (set (images st))" using d by (simp add: distinct_map)
  have mem: "images st ! i \<in> set (images st)" using i by simp
  have i1: "i < length (markProcessing (images st))" using i by simp
  show "length (settleAll es (images st1)) = length (images st)"
    by (simp add: st1)
  {
    assume np: "status (images st ! i) \<noteq> Pending"
    have "id' (images st ! i) \<notin> (\<lambda>e. id' (fst (fst e))) ` set es"
    proof
      assume "id' (images st ! i) \<in> (\<lambda>e. id' (fst (fst e))) ` set es"
      then obtain e where e: "e \<in> set es" and eq: "id' (images st ! i) = id' (fst (fst e))"
        by auto
      have p: "fst (fst e) \<in> set ?ps" using sub e by blast
      then have "fst (fst e) \<in> set (images st)" by simp
      then have "images st ! i = fst (fst e)" using inj mem eq by (auto dest: inj_onD)
      then show False using np p by simp
    qed
    then have "id' (markProcessing (images st) ! i) \<notin> (\<lambda>e. id' (fst (fst e))) ` set es"
      using i np by (simp add: markProcessing_nth)
    then have "settleAll es (markProcessing (images st)) ! i = markProcessing (images st) ! i"
      using i1 by (intro settleAll_untouched)
    then show "settleAll es (images st1) ! i = images st ! i"
      using i np by (simp add: st1 markProcessing_nth)
  }
  {
    assume p: "status (images st ! i) = Pending" and e: "((images st ! i, code), r) \<in> set es"
    have "id' (fst (images st ! i, code)) = id' (markProcessing (images st) ! i)"
      using i p by (simp add: markProcessing_nth)
    then have "settleAll es (markProcessing (images st)) ! i =
        settledItem r (markProcessing (images st) ! i)"
      using i1 de e by (intro settleAll_hit)
    then show "settleAll es (images st1) ! i =
        settledItem r ((images st ! i)\<lparr>status := Processing\<rparr>)"
      using i p by (simp add: st1 markProcessing_nth)
  }
  {
    assume p: "status (images st ! i) = Pending" and n: "images st ! i \<notin> fst ` fst ` set es"
    have "id' (images st ! i) \<notin> (\<lambda>e. id' (fst (fst e))) ` set es"
    proof
      assume "id' (images st ! i) \<in> (\<lambda>e. id' (fst (fst e))) ` set es"
      then obtain e where e: "e \<in> set es" and eq: "id' (images st ! i) = id' (fst (fst e))"
        by auto
      have "fst (fst e) \<in> set ?ps" using sub e by blast
      then have "fst (fst e) \<in> set (images st)" by simp
      then have "images st ! i = fst (fst e)" using inj mem eq by (auto dest: inj_onD)
      then show False using n e by force
    qed
    then have "id' (markProcessing (images st) ! i) \<notin> (\<lambda>e. id' (fst (fst e))) ` set es"
      using i p by (simp add: markProcessing_nth)
    then have "settleAll es (markProcessing (images st)) ! i = markProcessing (images st) ! i"
      using i1 by (intro settleAll_untouched)
    then show "settleAll es (images st1) ! i = (images st ! i)\<lparr>status := Processing\<rparr>"
      using i p by (simp add: st1 markProcessing_nth)
  }
qed

lemma settleTrace_nth0 [simp]: "settleTrace es imgs ! 0 = imgs"
  by (cases es) auto

lemma settleTrace_not_Nil [simp]: "settleTrace es imgs \<noteq> []"
  by (cases es) auto

lemma status_settledItem: "status (settledItem r img) \<noteq> Pending"
  by (simp add: settledItem_def split: settlement.splits rejection.splits)

lemma settle_no_pending:
  "\<forall>img\<in>set imgs. status img \<noteq> Pending \<Longrightarrow> \<forall>img\<in>set (settle c r imgs). status img \<noteq> Pending"
  by (auto simp: settle_conv status_settledItem)

lemma settleTrace_no_pending:
  "\<forall>img\<in>set imgs. status img \<noteq> Pending \<Longrightarrow> s \<in> set (settleTrace es imgs) \<Longrightarrow>
   (\<forall>img\<in>set s. status img \<noteq> Pending) \<and> length s = length imgs"
proof (induction es arbitrary: imgs)
  case Nil
  then show ?case by simp
next
  case (Cons e es)
  obtain c r where e: "e = (c, r)" by (cases e)
  show ?case
  proof (cases "s = imgs")
    case True
    then show ?thesis using Cons.prems by simp
  next
    case False
    then have "s \<in> set (settleTrace es (settle c r imgs))" using Cons.prems(2) e by simp
    moreover have "\<forall>img\<in>set (settle c r imgs). status img \<noteq> Pending"
      using Cons.prems(1) by (rule settle_no_pending)
    ultimately have "(\<forall>img\<in>set s. status img \<noteq> Pending) \<and> length s = length (settle c r imgs)"
      by (intro Cons.IH)
    then show ?thesis by simp
  qed
qed

lemma markProcessing_no_pending: "\<forall>img\<in>set (markProcessing imgs). status img \<noteq> Pending"
  by (auto simp: markProcessing_def)

lemma itemInvariant_mono:
  "itemInvariant settled img \<Longrightarrow> set settled \<subseteq> set settled' \<Longrightarrow> itemInvariant settled' img"
  by (cases "status img") (auto simp: itemInvariant_def)

lemma itemInvariant_started:
  "status img = Pending \<Longrightarrow> itemInvariant settled img \<Longrightarrow>
   itemInvariant settled' (img\<lparr>status := Processing\<rparr>)"
  by (simp add: itemInvariant_def)

lemma settledItem_fields:
  assumes "status img = Pending" and "itemInvariant settled img"
  shows "status (settledItem (Fulfilled name) (img\<lparr>status := Processing\<rparr>)) = Completed
         \<and> newName (settledItem (Fulfilled name) (img\<lparr>status := Processing\<rparr>)) = trim name
         \<and> errorMessage (settledItem (Fulfilled name) (img\<lparr>status := Processing\<rparr>)) = None"
    and "status (settledItem (Rejected err) (img\<lparr>status := Processing\<rparr>)) = Error
         \<and> newName (settledItem (Rejected err) (img\<lparr>status := Processing\<rparr>)) = []
         \<and> errorMessage (settledItem (Rejected err) (img\<lparr>status := Processing\<rparr>))
             = Some (catchMessage err)"
  using assms by (simp_all add: itemInvariant_def settledItem_def)

lemma itemInvariant_settled:
  assumes p: "status img = Pending" and inv: "itemInvariant settled img"
    and e: "((img, code), r) \<in> set es"
  shows "itemInvariant (settled @ es) (settledItem r (img\<lparr>status := Processing\<rparr>))"
proof (cases r)
  case (Fulfilled name)
  have "((img, code), Fulfilled name) \<in> set (settled @ es)
        \<and> id' (fst (img, code)) = id' (settledItem r (img\<lparr>status := Processing\<rparr>))"
    using e Fulfilled by simp
  then have "\<exists>c name'. (c, Fulfilled name') \<in> set (settled @ es)
      \<and> id' (fst c) = id' (settledItem r (img\<lparr>status := Processing\<rparr>))
      \<and> trim name = trim name'"
    by blast
  then show ?thesis
    using settledItem_fields(1) [OF p inv, of name] Fulfilled
    by (simp add: itemInvariant_def)
next
  case (Rejected err)
  have "((img, code), Rejected err) \<in> set (settled @ es)
        \<and> id' (fst (img, code)) = id' (settledItem r (img\<lparr>status := Processing\<rparr>))"
    using e Rejected by simp
  then have "\<exists>c err'. (c, Rejected err') \<in> set (settled @ es)
      \<and> id' (fst c) = id' (settledItem r (img\<lparr>status := Processing\<rparr>))
      \<and> Some (catchMessage err) = Some (catchMessage err')"
    by blast
  then show ?thesis
    using settledItem_fields(2) [OF p inv, of err] Rejected
    by (simp add: itemInvariant_def)
qed

lemma itemInvariant_not_both:
  "itemInvariant settled img \<Longrightarrow> \<not> (newName img \<noteq> [] \<and> errorMessage img \<noteq> None)"
  by (cases "status img") (auto simp: itemInvariant_def)

lemma run_invariant:
  assumes d: "distinct (map id' (images st))"
    and inv: "\<forall>img\<in>set (images st). itemInvariant settled img"
    and h: "handleProcessImages st = (st1, Some calls)"
    and o: "settledSoFar calls es"
  shows "\<forall>img\<in>set (settleAll es (images st1)). itemInvariant (settled @ es) img"
proof -
  have len: "length (settleAll es (images st1)) = length (images st)"
    using handleProcessImages_SomeD [OF h] by auto
  have "\<forall>i<length (settleAll es (images st1)).
          itemInvariant (settled @ es) (settleAll es (images st1) ! i)"
  proof (intro allI impI)
    fix i
    assume "i < length (settleAll es (images st1))"
    then have i: "i < length (images st)" using len by simp
    then have ii: "itemInvariant settled (images st ! i)" using inv by simp
    show "itemInvariant (settled @ es) (settleAll es (images st1) ! i)"
    proof (cases "status (images st ! i) = Pending")
      case False
      have "itemInvariant (settled @ es) (images st ! i)"
        using ii by (rule itemInvariant_mono) simp
      then show ?thesis using run_items(2) [OF d h o i False] by simp
    next
      case True
      show ?thesis
      proof (cases "images st ! i \<in> fst ` fst ` set es")
        case False
        then show ?thesis
          using run_items(4) [OF d h o i True] itemInvariant_started [OF True ii] by simp
      next
        case True
        then obtain code r where e: "((images st ! i, code), r) \<in> set es" by force
        then show ?thesis
          using run_items(3) [OF d h o i \<open>status (images st ! i) = Pending\<close> e]
            itemInvariant_settled [OF \<open>status (images st ! i) = Pending\<close> ii e] by simp
      qed
    qed
  qed
  then show ?thesis by (simp only: all_set_conv_all_nth)
qed

lemma order_settles_pending:
  assumes d: "distinct (map id' (images st))"
    and h: "handleProcessImages st = (st1, Some calls)"
    and o: "settlementOrder calls es"
    and i: "i < length (images st)"
    and p: "status (images st ! i) = Pending"
  shows "settledSoFar calls es" and "\<exists>code r. ((images st ! i, code), r) \<in> set es"
proof -
  let ?ps = "filter (\<lambda>img. status img = Pending) (images st)"
  have fc: "map fst calls = ?ps" using h by (rule launched_ids)
  have "distinct (images st)" using d by (simp add: distinct_map)
  then have "distinct (map fst calls)" by (simp add: fc)
  then have dcalls: "distinct calls" by (simp add: distinct_map)
  show so: "settledSoFar calls es" and "\<exists>code r. ((images st ! i, code), r) \<in> set es"
  proof -
    have se: "set (map fst es) = set calls"
      using settlementOrder_settledSoFar [OF o dcalls] by auto
    show "settledSoFar calls es" using settlementOrder_settledSoFar [OF o dcalls] by auto
    have "images st ! i \<in> set ?ps" using i p by simp
    then have "images st ! i \<in> fst ` set calls" using fc by (metis set_map)
    then obtain code where "(images st ! i, code) \<in> set (map fst es)" using se by auto
    then obtain r where "((images st ! i, code), r) \<in> set es" by auto
    then show "\<exists>code r. ((images st ! i, code), r) \<in> set es" by blast
  qed
qed

lemma run_settled_fields:
  assumes d: "distinct (map id' (images st))"
    and inv: "\<forall>img\<in>set (images st). itemInvariant settled img"
    and h: "handleProcessImages st = (st1, Some calls)"
    and o: "settlementOrder calls es"
    and i: "i < length (images st)"
    and p: "status (images st ! i) = Pending"
  shows "((images st ! i, code), Fulfilled name) \<in> set es \<Longrightarrow>
           status (images (processingRun st es) ! i) = Completed
           \<and> newName (images (processingRun st es) ! i) = trim name
           \<and> errorMessage (images (processingRun st es) ! i) = None"
    and "((images st ! i, code), Rejected err) \<in> set es \<Longrightarrow>
           status (images (processingRun st es) ! i) = Error
           \<and> newName (images (processingRun st es) ! i) = []
           \<and> errorMessage (images (processingRun st es) ! i) = Some (catchMessage err)"
proof -
  have run: "images (processingRun st es) = settleAll es (images st1)"
    using h by (simp add: processingRun_def)
  have ii: "itemInvariant settled (images st ! i)" using inv i by simp
  note so = order_settles_pending(1) [OF d h o i p]
  {
    assume e: "((images st ! i, code), Fulfilled name) \<in> set es"
    show "status (images (processingRun st es) ! i) = Completed
           \<and> newName (images (processingRun st es) ! i) = trim name
           \<and> errorMessage (images (processingRun st es) ! i) = None"
      unfolding run run_items(3) [OF d h so i p e]
      by (rule settledItem_fields(1) [OF p ii])
  }
  {
    assume e: "((images st ! i, code), Rejected err) \<in> set es"
    show "status (images (processingRun st es) ! i) = Error
           \<and> newName (images (processingRun st es) ! i) = []
           \<and> errorMessage (images (processingRun st es) ! i) = Some (catchMessage err)"
      unfolding run run_items(3) [OF d h so i p e]
      by (rule settledItem_fields(2) [OF p ii])
  }
qed

lemma run_terminal:
  assumes d: "distinct (map id' (images st))"
    and inv: "\<forall>img\<in>set (images st). itemInvariant settled img"
    and h: "handleProcessImages st = (st1, Some calls)"
    and o: "settlementOrder calls es"
    and i: "i < length (images st)"
    and p: "status (images st ! i) = Pending"
  shows "status (images (processingRun st es) ! i) = Completed
         \<or> status (images (processingRun st es) ! i) = Error"
proof -
  obtain code r where e: "((images st ! i, code), r) \<in> set es"
    using order_settles_pending(2) [OF d h o i p] by blast
  show ?thesis
  proof (cases r)
    case (Fulfilled name)
    then show ?thesis using run_settled_fields(1) [OF d inv h o i p] e by blast
  next
    case (Rejected err)
    then show ?thesis using run_settled_fields(2) [OF d inv h o i p] e by blast
  qed
qed

lemma settlementsOf_Cons: "settlementsOf (e # evs) = settlementsOf [e] @ settlementsOf evs"
  by (cases e) simp_all

lemma step_invariant:
  assumes "distinct (map id' (images st)) \<and> (\<forall>img\<in>set (images st). itemInvariant settled img)"
    and "step e st = Some st'"
  shows "distinct (map id' (images st'))
         \<and> (\<forall>img\<in>set (images st'). itemInvariant (settled @ settlementsOf [e]) img)"
proof (cases e)
  case (FilesSelected files)
  then have "distinct (map id' (images st @ map newImage files))"
    and "st' = handleFilesSelected files st"
    using assms(2) by (auto split: if_splits)
  moreover have "\<forall>f\<in>set files. itemInvariant settled (newImage f)"
    by (simp add: itemInvariant_def newImage_def)
  ultimately show ?thesis using assms(1) FilesSelected by (auto simp: handleFilesSelected_def)
next
  case (CodesChanged raw)
  then show ?thesis using assms by auto
next
  case (ProcessImages es)
  obtain st1 res where h: "handleProcessImages st = (st1, res)"
    by (cases "handleProcessImages st") auto
  show ?thesis
  proof (cases res)
    case None
    then have "st' = st1" using assms(2) ProcessImages h
      by (auto simp: processingRun_def split: if_splits)
    moreover have "\<forall>img\<in>set (images st). itemInvariant (settled @ es) img"
      using assms(1) itemInvariant_mono [of settled _ "settled @ es"] by auto
    ultimately show ?thesis
      using assms(1) h None ProcessImages handleProcessImages_NoneD [of st st1] by simp
  next
    case (Some calls)
    then have hs: "handleProcessImages st = (st1, Some calls)" using h by simp
    have o: "settlementOrder calls es" and st': "st' = processingRun st es"
      using assms(2) ProcessImages hs by (auto split: if_splits)
    have fc: "map fst calls = filter (\<lambda>img. status img = Pending) (images st)"
      using hs by (rule launched_ids)
    have "distinct (images st)" using assms(1) by (simp add: distinct_map)
    then have "distinct (map fst calls)" by (simp add: fc)
    then have "distinct calls" by (simp add: distinct_map)
    then have so: "settledSoFar calls es" using settlementOrder_settledSoFar(1) [OF o] by simp
    have run: "images st' = settleAll es (images st1)"
      using hs st' by (simp add: processingRun_def)
    have mp: "images st1 = markProcessing (images st)"
      using handleProcessImages_SomeD [OF hs] by auto
    have "map id' (settleAll es (images st1)) = map id' (images st)"
      unfolding mp by simp
    then have "distinct (map id' (images st'))" using assms(1) run by simp
    moreover have "\<forall>img\<in>set (images st'). itemInvariant (settled @ es) img"
      unfolding run using assms(1) hs so by (intro run_invariant) auto
    ultimately show ?thesis using ProcessImages by simp
  qed
next
  case Clear
  then show ?thesis using assms(2) by (auto simp: handleClear_def)
qed

lemma steps_invariant:
  "distinct (map id' (images st)) \<and> (\<forall>img\<in>set (images st). itemInvariant settled img) \<Longrightarrow>
   steps evs st = Some st' \<Longrightarrow>
   distinct (map id' (images st'))
   \<and> (\<forall>img\<in>set (images st'). itemInvariant (settled @ settlementsOf evs) img)"
proof (induction evs arbitrary: st settled)
  case Nil
  then show ?case by simp
next
  case (Cons e evs)
  then obtain st2 where s: "step e st = Some st2" and r: "steps evs st2 = Some st'"
    by (auto split: option.splits)
  have "distinct (map id' (images st2))
        \<and> (\<forall>img\<in>set (images st2). itemInvariant (settled @ settlementsOf [e]) img)"
    using Cons.prems(1) s by (rule step_invariant)
  then have "distinct (map id' (images st'))
   \<and> (\<forall>img\<in>set (images st'). itemInvariant ((settled @ settlementsOf [e]) @ settlementsOf evs) img)"
    using r by (rule Cons.IH)
  then show ?case by (simp add: settlementsOf_Cons [of e evs])
qed

lemma steps_append:
  "steps (evs @ evs') st = (case steps evs st of None \<Rightarrow> None | Some st' \<Rightarrow> steps evs' st')"
  by (induction evs arbitrary: st) (auto split: option.splits)

section \<open>The sample data, evaluated\<close>

lemma sampleImages_differ:
  "sampleImage ''1'' ''A1_x.jpg'' Pending \<noteq> sampleImage ''2'' ''A2_y.jpg'' Pending"
  by (simp add: sampleImage_def js_def)

lemma sampleBatch_images:
  "images sampleBatch =
     [(sampleImage ''0'' ''old.jpg'' Completed)\<lparr>newName := js ''Z9_side.jpg''\<rparr>,
      sampleImage ''1'' ''A1_x.jpg'' Pending, sampleImage ''2'' ''A2_y.jpg'' Pending]"
  by (simp add: sampleBatch_def sampleState_def)

lemma sampleBatch_distinct: "distinct (map id' (images sampleBatch))"
  by (simp add: sampleBatch_images sampleImage_def js_def)

lemma sampleBatch_pending:
  "filter (\<lambda>img. status img = Pending) (images sampleBatch) =
     [sampleImage ''1'' ''A1_x.jpg'' Pending, sampleImage ''2'' ''A2_y.jpg'' Pending]"
  by (simp add: sampleBatch_images sampleImage_def)

lemma sampleBatch_codes: "parseCodes (itemCodes sampleBatch) = [js ''A1'', js ''A2'']"
  by (simp add: sampleBatch_def sampleState_def parseCodes_def js_def LF_def trim_def
      isWhiteSpace_unat)

lemma sampleBatch_match:
  "matchImages [js ''A1'', js ''A2'']
     [sampleImage ''1'' ''A1_x.jpg'' Pending, sampleImage ''2'' ''A2_y.jpg'' Pending]
   = ([js ''1'' \<mapsto> js ''A1'', js ''2'' \<mapsto> js ''A2''], [])"
  by (simp add: matchImages_def secondPass_def sampleImage_def js_def trim_def
      isWhiteSpace_unat startsWith_def truthy_def)

lemma sampleBatch_launch:
  "handleProcessImages sampleBatch =
     (sampleBatch\<lparr>error := None, isProcessing := True,
                  images := markProcessing (images sampleBatch)\<rparr>, Some sampleCalls)"
proof -
  have "map (\<lambda>img. (img, the ([js ''1'' \<mapsto> js ''A1'', js ''2'' \<mapsto> js ''A2''] (id' img))))
          [sampleImage ''1'' ''A1_x.jpg'' Pending, sampleImage ''2'' ''A2_y.jpg'' Pending]
        = sampleCalls"
    by (simp add: sampleCalls_def sampleImage_def js_def)
  then show ?thesis
    using handleProcessImages_started
      [of sampleBatch "[js ''1'' \<mapsto> js ''A1'', js ''2'' \<mapsto> js ''A2'']"]
    by (simp add: sampleBatch_pending sampleBatch_codes sampleBatch_match)
qed

lemma sampleOrder_calls:
  "map fst sampleOrder =
     [(sampleImage ''2'' ''A2_y.jpg'' Pending, js ''A2''),
      (sampleImage ''1'' ''A1_x.jpg'' Pending, js ''A1'')]"
  by (simp add: sampleOrder_def)

lemma sampleOrder_settles: "settlementOrder sampleCalls sampleOrder"
  by (simp add: settlementOrder_def sampleOrder_calls sampleCalls_def)

lemma sampleOrder_so_far: "settledSoFar sampleCalls sampleOrder"
  using sampleImages_differ
  by (auto simp: settledSoFar_def sampleOrder_calls sampleCalls_def)

lemma sampleLoaded_reached:
  "steps [FilesSelected [sampleFile], CodesChanged (js ''L1'')] initialState = Some sampleLoaded"
  by (simp add: initialState_def handleFilesSelected_def sampleLoaded_def)

lemma sampleLoaded_launch:
  "handleProcessImages sampleLoaded =
     (\<lparr>images = [(newImage sampleFile)\<lparr>status := Processing\<rparr>], itemCodes = js ''L1'',
        error = None, isProcessing = True\<rparr>, Some [(newImage sampleFile, js ''L1'')])"
proof -
  have i: "status (newImage sampleFile) = Pending" by (simp add: newImage_def)
  have "parseCodes (js ''L1'') = [js ''L1'']"
    by (simp add: parseCodes_def js_def LF_def trim_def isWhiteSpace_unat)
  then have "parseCodes (itemCodes sampleLoaded) = [js ''L1'']
        \<and> filter (\<lambda>img. status img = Pending) (images sampleLoaded) \<noteq> []"
    using i by (simp add: sampleLoaded_def)
  then have "handleProcessImages sampleLoaded =
      (sampleLoaded\<lparr>error := None, isProcessing := True,
                    images := markProcessing (images sampleLoaded)\<rparr>,
       Some (map (\<lambda>img. (img, trim (js ''L1'')))
               (filter (\<lambda>img. status img = Pending) (images sampleLoaded))))"
    by (intro handleProcessImages_single_code) simp_all
  moreover have "trim (js ''L1'') = js ''L1''" by (simp add: js_def trim_def isWhiteSpace_unat)
  ultimately show ?thesis using i by (simp add: markProcessing_def sampleLoaded_def)
qed

lemma sampleLoaded_shown: "pendingImagesCount sampleLoaded > 0"
  by (simp add: pendingImagesCount_def sampleLoaded_def newImage_def)

lemma sampleLoaded_run:
  "steps [FilesSelected [sampleFile], CodesChanged (js ''L1''),
          ProcessImages [((newImage sampleFile, js ''L1''), r)]] initialState
   = Some \<lparr>images = [settledItem r ((newImage sampleFile)\<lparr>status := Processing\<rparr>)],
           itemCodes = js ''L1'', error = None, isProcessing = False\<rparr>"
proof -
  have "step (ProcessImages [((newImage sampleFile, js ''L1''), r)]) sampleLoaded
      = Some \<lparr>images = [settledItem r ((newImage sampleFile)\<lparr>status := Processing\<rparr>)],
              itemCodes = js ''L1'', error = None, isProcessing = False\<rparr>"
    using sampleLoaded_shown
    by (simp add: sampleLoaded_launch processingRun_def settlementOrder_def settle_conv)
  moreover have "steps ([FilesSelected [sampleFile], CodesChanged (js ''L1'')]
          @ [ProcessImages [((newImage sampleFile, js ''L1''), r)]]) initialState
      = steps [ProcessImages [((newImage sampleFile, js ''L1''), r)]] sampleLoaded"
    by (simp only: steps_append sampleLoaded_reached option.case)
  ultimately show ?thesis by simp
qed

lemma sampleLoaded_item:
  "newName (newImage sampleFile) = [] \<and> errorMessage (newImage sampleFile) = None
   \<and> status (newImage sampleFile) = Pending"
  by (simp add: newImage_def)

section \<open>Matching: the claims\<close>

text \<open>
  C1. First pass: with pending items of distinct ids and codes that are non-empty strings
  (as every parsed code is), an item is assigned the trimmed value of the first code, in
  list order, whose trimmed value is a prefix of its \<open>originalName\<close>, and is then not among
  the unmatched; an item of which no trimmed code is a prefix is put in the unmatched
  array, in order, and gets no assignment.
\<close>

theorem firstPass_first_prefix_code:
  assumes "[] \<notin> set codes"
    and "distinct (map id' pendingImages)"
    and "firstPass codes pendingImages (Map.empty, []) = (imageToCodeMap, unmatchedImages)"
  shows "unmatchedImages =
           filter (\<lambda>img. \<forall>c\<in>set codes. \<not> prefix (trim c) (originalName img)) pendingImages
       \<and> (\<forall>img\<in>set pendingImages. \<forall>i<length codes.
           prefix (trim (codes ! i)) (originalName img)
           \<and> (\<forall>j<i. \<not> prefix (trim (codes ! j)) (originalName img))
           \<longrightarrow> imageToCodeMap (id' img) = Some (trim (codes ! i)) \<and> img \<notin> set unmatchedImages)
       \<and> (\<forall>img\<in>set pendingImages.
           (\<forall>c\<in>set codes. \<not> prefix (trim c) (originalName img))
           \<longrightarrow> img \<in> set unmatchedImages \<and> imageToCodeMap (id' img) = None)"
proof -
  have un: "unmatchedImages =
      filter (\<lambda>img. \<forall>c\<in>set codes. \<not> startsWith (originalName img) (trim c)) pendingImages"
    using firstPass_unmatched [OF assms(1), of pendingImages Map.empty "[]"] assms(3) by simp
  then have c1: "unmatchedImages =
           filter (\<lambda>img. \<forall>c\<in>set codes. \<not> prefix (trim c) (originalName img)) pendingImages"
    by (simp add: startsWith_def)
  have mp: "\<And>img. img \<in> set pendingImages \<Longrightarrow> imageToCodeMap (id' img) =
     (case find (\<lambda>code. startsWith (originalName img) (trim code)) codes of
        Some c \<Rightarrow> Some (trim c) | None \<Rightarrow> None)"
    using firstPass_assigned [OF assms(1,2), of _ Map.empty "[]"] assms(3) by simp
  have c2: "\<forall>img\<in>set pendingImages. \<forall>i<length codes.
           prefix (trim (codes ! i)) (originalName img)
           \<and> (\<forall>j<i. \<not> prefix (trim (codes ! j)) (originalName img))
           \<longrightarrow> imageToCodeMap (id' img) = Some (trim (codes ! i)) \<and> img \<notin> set unmatchedImages"
  proof (intro ballI allI impI)
    fix img i
    assume img: "img \<in> set pendingImages" and i: "i < length codes"
      and h: "prefix (trim (codes ! i)) (originalName img)
           \<and> (\<forall>j<i. \<not> prefix (trim (codes ! j)) (originalName img))"
    have "find (\<lambda>code. startsWith (originalName img) (trim code)) codes = Some (codes ! i)"
      using i h by (intro find_first_index) (simp_all add: startsWith_def)
    then have "imageToCodeMap (id' img) = Some (trim (codes ! i))"
      using mp [OF img] by simp
    moreover have "img \<notin> set unmatchedImages"
      using un i h by (auto simp: startsWith_def)
    ultimately show "imageToCodeMap (id' img) = Some (trim (codes ! i)) \<and> img \<notin> set unmatchedImages"
      by simp
  qed
  have c3: "\<forall>img\<in>set pendingImages.
           (\<forall>c\<in>set codes. \<not> prefix (trim c) (originalName img))
           \<longrightarrow> img \<in> set unmatchedImages \<and> imageToCodeMap (id' img) = None"
  proof (intro ballI impI)
    fix img
    assume img: "img \<in> set pendingImages"
      and h: "\<forall>c\<in>set codes. \<not> prefix (trim c) (originalName img)"
    then have "find (\<lambda>code. startsWith (originalName img) (trim code)) codes = None"
      by (simp add: find_None_iff startsWith_def)
    then have "imageToCodeMap (id' img) = None" using mp [OF img] by simp
    moreover have "img \<in> set unmatchedImages" using un img h by (simp add: startsWith_def)
    ultimately show "img \<in> set unmatchedImages \<and> imageToCodeMap (id' img) = None" by simp
  qed
  show ?thesis by (intro conjI; fact)
qed

theorem firstPass_first_prefix_code_witness:
  "[] \<notin> set [js ''A1'', js '' A1_x'', js ''B'']
   \<and> distinct (map id' [sampleImage ''1'' ''A1_x.jpg'' Pending,
                         sampleImage ''2'' ''a1_y.jpg'' Pending])
   \<and> firstPass [js ''A1'', js '' A1_x'', js ''B'']
        [sampleImage ''1'' ''A1_x.jpg'' Pending, sampleImage ''2'' ''a1_y.jpg'' Pending]
        (Map.empty, [])
      = ([js ''1'' \<mapsto> js ''A1''], [sampleImage ''2'' ''a1_y.jpg'' Pending])
   \<and> prefix (trim (js ''A1'')) (js ''A1_x.jpg'')
   \<and> prefix (trim (js '' A1_x'')) (js ''A1_x.jpg'')
   \<and> [sampleImage ''2'' ''a1_y.jpg'' Pending] =
        filter (\<lambda>img. \<forall>c\<in>set [js ''A1'', js '' A1_x'', js ''B''].
                  \<not> prefix (trim c) (originalName img))
          [sampleImage ''1'' ''A1_x.jpg'' Pending, sampleImage ''2'' ''a1_y.jpg'' Pending]"
proof -
  have h1: "[] \<notin> set [js ''A1'', js '' A1_x'', js ''B'']"
    by (simp add: js_def)
  have h2: "distinct (map id' [sampleImage ''1'' ''A1_x.jpg'' Pending,
                                sampleImage ''2'' ''a1_y.jpg'' Pending])"
    by (simp add: sampleImage_def js_def)
  have h3: "firstPass [js ''A1'', js '' A1_x'', js ''B'']
        [sampleImage ''1'' ''A1_x.jpg'' Pending, sampleImage ''2'' ''a1_y.jpg'' Pending]
        (Map.empty, [])
      = ([js ''1'' \<mapsto> js ''A1''], [sampleImage ''2'' ''a1_y.jpg'' Pending])"
    by (simp add: sampleImage_def js_def trim_def isWhiteSpace_unat startsWith_def truthy_def)
  have p: "prefix (trim (js ''A1'')) (js ''A1_x.jpg'')
           \<and> prefix (trim (js '' A1_x'')) (js ''A1_x.jpg'')"
    by (simp add: js_def trim_def isWhiteSpace_unat)
  show ?thesis using h1 h2 h3 p firstPass_first_prefix_code [OF h1 h2 h3] by blast
qed

text \<open>
  C2. Second pass: with exactly one code and a non-empty unmatched array, every unmatched
  item is assigned that code, trimmed, the unmatched array becomes empty and no other
  assignment changes; so with a one-element code list both passes leave no item unmatched
  and every pending item carries the trimmed code, whatever its name, and the handler
  launches one call per pending item with it. With more than one code the second pass
  changes nothing.
\<close>

theorem secondPass_single_code_fallback:
  "(length codes = 1 \<and> unmatchedImages \<noteq> [] \<longrightarrow>
      snd (secondPass codes (imageToCodeMap, unmatchedImages)) = []
      \<and> (\<forall>img\<in>set unmatchedImages.
            fst (secondPass codes (imageToCodeMap, unmatchedImages)) (id' img)
              = Some (trim (codes ! 0)))
      \<and> (\<forall>k. k \<notin> id' ` set unmatchedImages \<longrightarrow>
            fst (secondPass codes (imageToCodeMap, unmatchedImages)) k = imageToCodeMap k))
   \<and> snd (matchImages [c] pendingImages) = []
   \<and> (\<forall>img\<in>set pendingImages. fst (matchImages [c] pendingImages) (id' img) = Some (trim c))
   \<and> (parseCodes (itemCodes st) = [c]
        \<and> filter (\<lambda>img. status img = Pending) (images st) \<noteq> [] \<longrightarrow>
        handleProcessImages st =
          (st\<lparr>error := None, isProcessing := True, images := markProcessing (images st)\<rparr>,
           Some (map (\<lambda>img. (img, trim c)) (filter (\<lambda>img. status img = Pending) (images st)))))
   \<and> (length codes > 1 \<longrightarrow>
        secondPass codes (imageToCodeMap, unmatchedImages) = (imageToCodeMap, unmatchedImages))"
proof (intro conjI impI)
  assume h: "length codes = 1 \<and> unmatchedImages \<noteq> []"
  then have eq: "secondPass codes (imageToCodeMap, unmatchedImages) =
      (assignAll (trim (codes ! 0)) unmatchedImages imageToCodeMap, [])"
    by (simp add: secondPass_def)
  show "snd (secondPass codes (imageToCodeMap, unmatchedImages)) = []"
    by (simp add: eq)
  show "\<forall>img\<in>set unmatchedImages.
      fst (secondPass codes (imageToCodeMap, unmatchedImages)) (id' img) = Some (trim (codes ! 0))"
    by (simp add: eq assignAll_lookup)
  show "\<forall>k. k \<notin> id' ` set unmatchedImages \<longrightarrow>
      fst (secondPass codes (imageToCodeMap, unmatchedImages)) k = imageToCodeMap k"
    by (simp add: eq assignAll_lookup)
next
  show "snd (matchImages [c] pendingImages) = []"
    using matchImages_single by blast
  show "\<forall>img\<in>set pendingImages. fst (matchImages [c] pendingImages) (id' img) = Some (trim c)"
    using matchImages_single by blast
next
  assume h: "parseCodes (itemCodes st) = [c]
             \<and> filter (\<lambda>img. status img = Pending) (images st) \<noteq> []"
  then show "handleProcessImages st =
          (st\<lparr>error := None, isProcessing := True, images := markProcessing (images st)\<rparr>,
           Some (map (\<lambda>img. (img, trim c)) (filter (\<lambda>img. status img = Pending) (images st))))"
    by (intro handleProcessImages_single_code) simp_all
next
  assume "length codes > 1"
  then show "secondPass codes (imageToCodeMap, unmatchedImages) = (imageToCodeMap, unmatchedImages)"
    by (simp add: secondPass_def)
qed

theorem secondPass_single_code_fallback_witness:
  "length [js '' L41086600 ''] = 1 \<and> [sampleImage ''1'' ''photo1.jpg'' Pending] \<noteq> []
   \<and> snd (secondPass [js '' L41086600 '']
            (Map.empty, [sampleImage ''1'' ''photo1.jpg'' Pending])) = []
   \<and> fst (secondPass [js '' L41086600 '']
            (Map.empty, [sampleImage ''1'' ''photo1.jpg'' Pending])) (js ''1'')
       = Some (js ''L41086600'')
   \<and> parseCodes (itemCodes (sampleState [sampleImage ''1'' ''photo1.jpg'' Pending]
                               (js '' L41086600 ''))) = [js '' L41086600 '']
   \<and> filter (\<lambda>img. status img = Pending)
        (images (sampleState [sampleImage ''1'' ''photo1.jpg'' Pending] (js '' L41086600 '')))
       \<noteq> []
   \<and> snd (handleProcessImages
            (sampleState [sampleImage ''1'' ''photo1.jpg'' Pending] (js '' L41086600 '')))
       = Some [(sampleImage ''1'' ''photo1.jpg'' Pending, js ''L41086600'')]
   \<and> length [js ''A1'', js ''A2''] > 1
   \<and> secondPass [js ''A1'', js ''A2''] (Map.empty, [sampleImage ''2'' ''B_y.jpg'' Pending])
       = (Map.empty, [sampleImage ''2'' ''B_y.jpg'' Pending])"
proof -
  let ?c = "js '' L41086600 ''"
  let ?img = "sampleImage ''1'' ''photo1.jpg'' Pending"
  let ?st = "sampleState [?img] ?c"
  have h1: "length [?c] = 1 \<and> [?img] \<noteq> []" by simp
  have h2: "parseCodes (itemCodes ?st) = [?c]
            \<and> filter (\<lambda>img. status img = Pending) (images ?st) \<noteq> []"
    by (simp add: sampleState_def sampleImage_def parseCodes_def js_def LF_def trim_def
        isWhiteSpace_unat)
  have h3: "length [js ''A1'', js ''A2''] > 1" by simp
  have e1: "id' ?img = js ''1''" by (simp add: sampleImage_def)
  have e2: "trim ([?c] ! 0) = js ''L41086600''"
    by (simp add: js_def trim_def isWhiteSpace_unat)
  have e3: "filter (\<lambda>img. status img = Pending) (images ?st) = [?img]"
    by (simp add: sampleState_def sampleImage_def)
  note t1 = secondPass_single_code_fallback [of "[?c]" "[?img]" Map.empty ?c "[?img]" ?st]
  note t2 = secondPass_single_code_fallback [of "[js ''A1'', js ''A2'']"
      "[sampleImage ''2'' ''B_y.jpg'' Pending]" Map.empty ?c "[?img]" ?st]
  have c1: "snd (secondPass [?c] (Map.empty, [?img])) = []"
    using t1 h1 by blast
  have "fst (secondPass [?c] (Map.empty, [?img])) (id' ?img) = Some (trim ([?c] ! 0))"
    using t1 h1 by simp
  then have c2: "fst (secondPass [?c] (Map.empty, [?img])) (js ''1'') = Some (js ''L41086600'')"
    by (simp only: e1 e2)
  have "handleProcessImages ?st =
          (?st\<lparr>error := None, isProcessing := True, images := markProcessing (images ?st)\<rparr>,
           Some (map (\<lambda>img. (img, trim ?c)) (filter (\<lambda>img. status img = Pending) (images ?st))))"
    using t1 h2 by blast
  then have c3: "snd (handleProcessImages ?st) = Some [(?img, js ''L41086600'')]"
    using e2 by (simp add: e3)
  have c4: "secondPass [js ''A1'', js ''A2''] (Map.empty, [sampleImage ''2'' ''B_y.jpg'' Pending])
       = (Map.empty, [sampleImage ''2'' ''B_y.jpg'' Pending])"
    using t2 h3 by blast
  show ?thesis using h1 h2 h3 c1 c2 c3 c4 by blast
qed

text \<open>
  C3. When items remain unmatched after both passes, the handler returns early: the error
  is the message holding the first up to three unmatched names, joined by a comma and a
  space, and the count of the others when there are more than three; no call is launched,
  and \<open>images\<close> and \<open>isProcessing\<close> are as before. This happens only with more than one
  code, and the unmatched items are the pending ones of which no trimmed code is a prefix.
\<close>

theorem unmatched_items_fail:
  assumes "parseCodes (itemCodes st) \<noteq> []"
    and "matchImages (parseCodes (itemCodes st))
           (filter (\<lambda>img. status img = Pending) (images st)) = (imageToCodeMap, unmatchedImages)"
    and "unmatchedImages \<noteq> []"
  shows "handleProcessImages st =
           (st\<lparr>error := Some
              (unmatchedHead
               @ join (js '', '') (take 3 (map originalName unmatchedImages))
               @ (if length unmatchedImages > 3
                  then js '' and '' @ toString (length unmatchedImages - 3) @ js '' more''
                  else [])
               @ unmatchedTail)\<rparr>,
            None)
         \<and> images (processingRun st es) = images st
         \<and> isProcessing (processingRun st es) = isProcessing st
         \<and> length (parseCodes (itemCodes st)) > 1
         \<and> unmatchedImages =
             filter (\<lambda>img. \<forall>c\<in>set (parseCodes (itemCodes st)). \<not> prefix (trim c) (originalName img))
               (filter (\<lambda>img. status img = Pending) (images st))"
proof -
  have h: "handleProcessImages st = (st\<lparr>error := Some (unmatchedMessage unmatchedImages)\<rparr>, None)"
    using assms by (rule handleProcessImages_unmatched)
  have u: "length (parseCodes (itemCodes st)) \<noteq> 1
         \<and> unmatchedImages =
             filter (\<lambda>img. \<forall>c\<in>set (parseCodes (itemCodes st)). \<not> prefix (trim c) (originalName img))
               (filter (\<lambda>img. status img = Pending) (images st))"
    using matchImages_unmatched [OF parseCodes_nonempty assms(2,3)] .
  moreover have "length (parseCodes (itemCodes st)) > 1"
    using u assms(1) by (cases "parseCodes (itemCodes st)") auto
  ultimately show ?thesis
    using h by (simp add: processingRun_def unmatchedMessage_def Let_def)
qed
theorem unmatched_items_fail_witness:
  "parseCodes (itemCodes (sampleState
       [sampleImage ''1'' ''A1_x.jpg'' Pending, sampleImage ''2'' ''B1.jpg'' Pending,
        sampleImage ''3'' ''B2.jpg'' Pending, sampleImage ''4'' ''B3.jpg'' Pending,
        sampleImage ''5'' ''B4.jpg'' Pending] (js ''A1'' @ [LF] @ js ''A2''))) \<noteq> []
   \<and> [sampleImage ''2'' ''B1.jpg'' Pending, sampleImage ''3'' ''B2.jpg'' Pending,
       sampleImage ''4'' ''B3.jpg'' Pending, sampleImage ''5'' ''B4.jpg'' Pending] \<noteq> []
   \<and> handleProcessImages (sampleState
       [sampleImage ''1'' ''A1_x.jpg'' Pending, sampleImage ''2'' ''B1.jpg'' Pending,
        sampleImage ''3'' ''B2.jpg'' Pending, sampleImage ''4'' ''B3.jpg'' Pending,
        sampleImage ''5'' ''B4.jpg'' Pending] (js ''A1'' @ [LF] @ js ''A2''))
      = ((sampleState
            [sampleImage ''1'' ''A1_x.jpg'' Pending, sampleImage ''2'' ''B1.jpg'' Pending,
             sampleImage ''3'' ''B2.jpg'' Pending, sampleImage ''4'' ''B3.jpg'' Pending,
             sampleImage ''5'' ''B4.jpg'' Pending] (js ''A1'' @ [LF] @ js ''A2''))
         \<lparr>error := Some (unmatchedHead @ js ''B1.jpg, B2.jpg, B3.jpg and 1 more''
                          @ unmatchedTail)\<rparr>,
         None)"
proof -
  let ?imgs = "[sampleImage ''1'' ''A1_x.jpg'' Pending, sampleImage ''2'' ''B1.jpg'' Pending,
        sampleImage ''3'' ''B2.jpg'' Pending, sampleImage ''4'' ''B3.jpg'' Pending,
        sampleImage ''5'' ''B4.jpg'' Pending]"
  let ?un = "[sampleImage ''2'' ''B1.jpg'' Pending, sampleImage ''3'' ''B2.jpg'' Pending,
       sampleImage ''4'' ''B3.jpg'' Pending, sampleImage ''5'' ''B4.jpg'' Pending]"
  let ?st = "sampleState ?imgs (js ''A1'' @ [LF] @ js ''A2'')"
  have p: "parseCodes (itemCodes ?st) = [js ''A1'', js ''A2'']"
    by (simp add: sampleState_def parseCodes_def js_def LF_def trim_def isWhiteSpace_unat)
  then have h1: "parseCodes (itemCodes ?st) \<noteq> []" by simp
  have f: "filter (\<lambda>img. status img = Pending) (images ?st) = ?imgs"
    by (simp add: sampleState_def sampleImage_def)
  have "matchImages [js ''A1'', js ''A2''] ?imgs = ([js ''1'' \<mapsto> js ''A1''], ?un)"
    by (simp add: matchImages_def secondPass_def sampleImage_def js_def trim_def
        isWhiteSpace_unat startsWith_def truthy_def)
  then have h2: "matchImages (parseCodes (itemCodes ?st))
           (filter (\<lambda>img. status img = Pending) (images ?st)) = ([js ''1'' \<mapsto> js ''A1''], ?un)"
    by (simp only: p f)
  have h3: "?un \<noteq> []" by simp
  have m: "join (js '', '') (take 3 (map originalName ?un))
           @ (if length ?un > 3 then js '' and '' @ toString (length ?un - 3) @ js '' more''
              else [])
         = js ''B1.jpg, B2.jpg, B3.jpg and 1 more''"
    by (simp add: sampleImage_def js_def toString.simps digit_def)
  have "handleProcessImages ?st =
      (?st\<lparr>error := Some (unmatchedHead
         @ (join (js '', '') (take 3 (map originalName ?un))
            @ (if length ?un > 3 then js '' and '' @ toString (length ?un - 3) @ js '' more''
               else []))
         @ unmatchedTail)\<rparr>, None)"
    using unmatched_items_fail [OF h1 h2 h3, of "[]"] by simp
  then have c: "handleProcessImages ?st =
      (?st\<lparr>error := Some (unmatchedHead @ js ''B1.jpg, B2.jpg, B3.jpg and 1 more''
                          @ unmatchedTail)\<rparr>, None)"
    by (simp only: m)
  show ?thesis using h1 h3 c by blast
qed

section \<open>Early returns and parsing: the claims\<close>

text \<open>
  C7. The handler is invoked from the button of lines 218-227 only, which is there while
  \<open>pendingImagesCount > 0\<close>. On every such invocation with a code list that is empty after
  filtering (blank input included), the handler sets the error to the no-codes message and
  returns before matching: no call is launched, and \<open>images\<close>, \<open>isProcessing\<close> and the code
  text are as before.
\<close>

theorem no_codes_error:
  assumes "pendingImagesCount st > 0"
    and "parseCodes (itemCodes st) = [] \<or> (\<forall>c\<in>set (itemCodes st). isWhiteSpace c)"
  shows "handleProcessImages st = (st\<lparr>error := Some noCodesMessage\<rparr>, None)
         \<and> processingRun st es = st\<lparr>error := Some noCodesMessage\<rparr>
         \<and> step (ProcessImages []) st = Some (st\<lparr>error := Some noCodesMessage\<rparr>)
         \<and> runTrace st es = [images st, images st]"
proof -
  have p: "filter (\<lambda>img. status img = Pending) (images st) \<noteq> []"
    using assms(1) by (auto simp: pendingImagesCount_def)
  have c: "parseCodes (itemCodes st) = []"
    using assms(2) parseCodes_blank by blast
  have h: "handleProcessImages st = (st\<lparr>error := Some noCodesMessage\<rparr>, None)"
    using p c by (simp add: handleProcessImages_def Let_def)
  then show ?thesis using assms(1) by (simp add: processingRun_def runTrace_def)
qed

theorem no_codes_error_witness:
  "pendingImagesCount (sampleState [sampleImage ''1'' ''a.jpg'' Pending] (js ''  '')) > 0
   \<and> list_all isWhiteSpace
         (itemCodes (sampleState [sampleImage ''1'' ''a.jpg'' Pending] (js ''  '')))
   \<and> handleProcessImages (sampleState [sampleImage ''1'' ''a.jpg'' Pending] (js ''  ''))
     = ((sampleState [sampleImage ''1'' ''a.jpg'' Pending] (js ''  ''))
          \<lparr>error := Some noCodesMessage\<rparr>, None)"
proof -
  let ?st = "sampleState [sampleImage ''1'' ''a.jpg'' Pending] (js ''  '')"
  have h1: "pendingImagesCount ?st > 0"
    by (simp add: pendingImagesCount_def sampleState_def sampleImage_def)
  have e2: "list_all isWhiteSpace (itemCodes ?st)"
    by (simp add: sampleState_def js_def isWhiteSpace_unat)
  have h2: "\<forall>c\<in>set (itemCodes ?st). isWhiteSpace c"
    using e2 by (simp only: list_all_iff)
  show ?thesis using h1 e2 no_codes_error [OF h1 disjI2 [OF h2], of "[]"] by blast
qed

text \<open>
  C8. The claim as stated fails on a line with surrounding white space: the parsed list
  holds the line as it stands, which is not its trimmed value.
\<close>

theorem parseCodes_untrimmed_counterexample:
  "parseCodes (js '' A1'') = [js '' A1''] \<and> trim (js '' A1'') \<noteq> js '' A1''"
  by (simp add: parseCodes_def trim_def isWhiteSpace_unat js_def LF_def)

text \<open>
  C8, as amended. The lines of the input are its pieces between line feeds. The parsed
  list holds, in order and as they stand (not trimmed), the lines whose trimmed value is
  non-empty; the trimmed values of its elements are the non-empty trimmed lines, each
  without white space at either end. Repeated codes are kept.
\<close>

theorem parseCodes_lines:
  "join [LF] (split LF raw) = raw
   \<and> (\<forall>l\<in>set (split LF raw). LF \<notin> set l)
   \<and> subseq (parseCodes raw) (split LF raw)
   \<and> (\<forall>l\<in>set (split LF raw). l \<in> set (parseCodes raw) \<longleftrightarrow> trim l \<noteq> [])
   \<and> map trim (parseCodes raw) = filter (\<lambda>t. t \<noteq> []) (map trim (split LF raw))
   \<and> (\<forall>c\<in>set (parseCodes raw). c \<noteq> [] \<and> trim c \<noteq> [] \<and> trim (trim c) = trim c
         \<and> \<not> isWhiteSpace (hd (trim c)) \<and> \<not> isWhiteSpace (last (trim c)))
   \<and> (\<forall>c. LF \<notin> set c \<and> trim c \<noteq> [] \<longrightarrow> parseCodes (c @ [LF] @ c) = [c, c])"
proof (intro conjI)
  show "join [LF] (split LF raw) = raw" by (rule join_split)
  show "\<forall>l\<in>set (split LF raw). LF \<notin> set l" using split_no_sep by blast
  show "subseq (parseCodes raw) (split LF raw)" by (simp add: parseCodes_def)
  show "\<forall>l\<in>set (split LF raw). l \<in> set (parseCodes raw) \<longleftrightarrow> trim l \<noteq> []"
    by (simp add: parseCodes_def)
  show "map trim (parseCodes raw) = filter (\<lambda>t. t \<noteq> []) (map trim (split LF raw))"
    by (simp add: parseCodes_def filter_map comp_def)
  show "\<forall>c\<in>set (parseCodes raw). c \<noteq> [] \<and> trim c \<noteq> [] \<and> trim (trim c) = trim c
         \<and> \<not> isWhiteSpace (hd (trim c)) \<and> \<not> isWhiteSpace (last (trim c))"
    using parseCodes_nonempty parseCodes_nonblank trim_trim trim_hd trim_last by metis
  show "\<forall>c. LF \<notin> set c \<and> trim c \<noteq> [] \<longrightarrow> parseCodes (c @ [LF] @ c) = [c, c]"
    by (simp add: parseCodes_def split_append_sep split_no_sep_id)
qed

theorem parseCodes_lines_witness:
  "parseCodes (js '' A1 '' @ [LF] @ js ''  '' @ [LF] @ js ''A2'') = [js '' A1 '', js ''A2'']
   \<and> map trim (parseCodes (js '' A1 '' @ [LF] @ js ''  '' @ [LF] @ js ''A2''))
       = [js ''A1'', js ''A2'']
   \<and> LF \<notin> set (js ''A1'') \<and> trim (js ''A1'') \<noteq> []
   \<and> parseCodes (js ''A1'' @ [LF] @ js ''A1'') = [js ''A1'', js ''A1'']"
proof -
  let ?raw = "js '' A1 '' @ [LF] @ js ''  '' @ [LF] @ js ''A2''"
  have s: "split LF ?raw = [js '' A1 '', js ''  '', js ''A2'']"
    by (simp add: js_def LF_def)
  have t: "map trim [js '' A1 '', js ''  '', js ''A2''] = [js ''A1'', [], js ''A2'']"
    by (simp add: js_def trim_def isWhiteSpace_unat)
  have n: "js ''A1'' \<noteq> [] \<and> js ''A2'' \<noteq> []" by (simp add: js_def)
  have h: "LF \<notin> set (js ''A1'') \<and> trim (js ''A1'') \<noteq> []"
    by (simp add: js_def LF_def trim_def isWhiteSpace_unat)
  have "map trim (parseCodes ?raw) = filter (\<lambda>t. t \<noteq> []) (map trim (split LF ?raw))"
    using parseCodes_lines [of ?raw] by blast
  then have c1: "map trim (parseCodes ?raw) = [js ''A1'', js ''A2'']"
    using n by (simp only: s t) simp
  have c0: "parseCodes ?raw = [js '' A1 '', js ''A2'']"
    unfolding parseCodes_def s using t n by simp
  have c2: "parseCodes (js ''A1'' @ [LF] @ js ''A1'') = [js ''A1'', js ''A1'']"
    using parseCodes_lines [of ?raw] h by blast
  show ?thesis using c0 c1 h c2 by blast
qed

text \<open>
  C9. With no pending item the handler returns at once: the state, error included, is
  unchanged and no call is launched, whatever the code text is.
\<close>

theorem no_pending_returns_unchanged:
  assumes "\<forall>img\<in>set (images st). status img \<noteq> Pending"
  shows "handleProcessImages st = (st, None) \<and> processingRun st es = st"
proof -
  have "filter (\<lambda>img. status img = Pending) (images st) = []"
    using assms by (simp add: filter_empty_conv)
  then have "handleProcessImages st = (st, None)"
    by (simp add: handleProcessImages_def Let_def)
  then show ?thesis by (simp add: processingRun_def)
qed

theorem no_pending_returns_unchanged_witness:
  "map status (images (sampleState [sampleImage ''1'' ''a.jpg'' Completed] (js ''  '')))
     = [Completed]
   \<and> parseCodes (itemCodes (sampleState [sampleImage ''1'' ''a.jpg'' Completed] (js ''  '')))
       = []
   \<and> handleProcessImages (sampleState [sampleImage ''1'' ''a.jpg'' Completed] (js ''  ''))
     = (sampleState [sampleImage ''1'' ''a.jpg'' Completed] (js ''  ''), None)
   \<and> error (sampleState [sampleImage ''1'' ''a.jpg'' Completed] (js ''  '')) = None"
proof -
  let ?st = "sampleState [sampleImage ''1'' ''a.jpg'' Completed] (js ''  '')"
  have e0: "map status (images ?st) = [Completed]"
    by (simp add: sampleState_def sampleImage_def)
  have h: "\<forall>img\<in>set (images ?st). status img \<noteq> Pending"
    by (simp add: sampleState_def sampleImage_def)
  have e: "parseCodes (itemCodes ?st) = [] \<and> error ?st = None"
    by (simp add: sampleState_def parseCodes_def js_def LF_def trim_def isWhiteSpace_unat)
  show ?thesis using e0 e no_pending_returns_unchanged [OF h, of "[]"] by blast
qed
section \<open>Processing: the claims\<close>

text \<open>
  C5. The claim as stated fails on the message of a failure. A rejection with an \<open>Error\<close>
  whose message is empty leaves the empty string as \<open>errorMessage\<close>, with no fallback; a
  rejection with a value that is not an \<open>Error\<close> gets the generic message although it
  carries the text \<open>quota exceeded\<close>.
\<close>

theorem rejection_message_counterexample:
  "steps [FilesSelected [sampleFile], CodesChanged (js ''L1''),
          ProcessImages [((newImage sampleFile, js ''L1''), Rejected (ErrorInstance []))]]
     initialState
     = Some \<lparr>images = [(newImage sampleFile)\<lparr>status := Error, errorMessage := Some []\<rparr>],
             itemCodes = js ''L1'', error = None, isProcessing = False\<rparr>
   \<and> steps [FilesSelected [sampleFile], CodesChanged (js ''L1''),
            ProcessImages [((newImage sampleFile, js ''L1''),
                            Rejected (OtherValue (Some (js ''quota exceeded''))))]]
       initialState
     = Some \<lparr>images = [(newImage sampleFile)\<lparr>status := Error,
                                               errorMessage := Some unknownErrorMessage\<rparr>],
             itemCodes = js ''L1'', error = None, isProcessing = False\<rparr>
   \<and> unknownErrorMessage \<noteq> []
   \<and> unknownErrorMessage \<noteq> js ''quota exceeded''"
proof -
  have a: "settledItem (Rejected (ErrorInstance [])) ((newImage sampleFile)\<lparr>status := Processing\<rparr>)
           = (newImage sampleFile)\<lparr>status := Error, errorMessage := Some []\<rparr>"
    by (simp add: settledItem_def catchMessage_def)
  have b: "settledItem (Rejected (OtherValue (Some (js ''quota exceeded''))))
             ((newImage sampleFile)\<lparr>status := Processing\<rparr>)
           = (newImage sampleFile)\<lparr>status := Error, errorMessage := Some unknownErrorMessage\<rparr>"
    by (simp add: settledItem_def catchMessage_def)
  have c: "unknownErrorMessage \<noteq> [] \<and> unknownErrorMessage \<noteq> js ''quota exceeded''"
    by (simp add: unknownErrorMessage_def js_def)
  show ?thesis
    using sampleLoaded_run [of "Rejected (ErrorInstance [])"]
      sampleLoaded_run [of "Rejected (OtherValue (Some (js ''quota exceeded'')))"] c
    by (simp only: a b) simp
qed

text \<open>
  C5, as amended. In a run that starts, with ids distinct and every launched call settling
  once: for each pending item exactly one call is launched and it settles exactly once; if
  it is fulfilled the item ends \<open>completed\<close> with \<open>newName\<close> the trimmed result; if it is
  rejected with an \<open>Error\<close> the item ends \<open>error\<close> with that error's message as it is, empty
  or not; if it is rejected with any other value, whatever text that value carries, the
  item ends \<open>error\<close> with the generic message. Nothing else of the item changes, and the
  outcome does not depend on how the other calls settle.
\<close>

theorem rename_outcome_per_item:
  assumes "distinct (map id' (images st))"
    and "handleProcessImages st = (st1, Some calls)"
    and "settlementOrder calls es"
    and "i < length (images st)"
    and "status (images st ! i) = Pending"
  shows "length (filter (\<lambda>c. fst c = images st ! i) calls) = 1
       \<and> length (filter (\<lambda>e. fst (fst e) = images st ! i) es) = 1
       \<and> (\<exists>code r. ((images st ! i, code), r) \<in> set es)
       \<and> (\<forall>code name. ((images st ! i, code), Fulfilled name) \<in> set es \<longrightarrow>
            images (processingRun st es) ! i
              = (images st ! i)\<lparr>status := Completed, newName := trim name\<rparr>)
       \<and> (\<forall>code message. ((images st ! i, code), Rejected (ErrorInstance message)) \<in> set es \<longrightarrow>
            images (processingRun st es) ! i
              = (images st ! i)\<lparr>status := Error, errorMessage := Some message\<rparr>)
       \<and> (\<forall>code carried. ((images st ! i, code), Rejected (OtherValue carried)) \<in> set es \<longrightarrow>
            images (processingRun st es) ! i
              = (images st ! i)\<lparr>status := Error, errorMessage := Some unknownErrorMessage\<rparr>)"
proof -
  let ?ps = "filter (\<lambda>img. status img = Pending) (images st)"
  let ?img = "images st ! i"
  have fc: "map fst calls = ?ps" using assms(2) by (rule launched_ids)
  have dimg: "distinct (images st)" using assms(1) by (simp add: distinct_map)
  then have dps: "distinct ?ps" by simp
  then have "distinct (map fst calls)" by (simp only: fc)
  then have dcalls: "distinct calls" by (simp add: distinct_map)
  have mem: "?img \<in> set ?ps" using assms(4,5) by simp
  have "length (filter (\<lambda>y. y = ?img) (map fst calls)) = card ({y. y = ?img} \<inter> set ?ps)"
    using dps unfolding fc by (rule distinct_length_filter)
  also have "{y. y = ?img} \<inter> set ?ps = {?img}" using mem by auto
  finally have one: "length (filter (\<lambda>c. fst c = ?img) calls) = 1"
    by (simp add: filter_map comp_def)
  have m: "mset (map fst es) = mset calls" using assms(3) by (simp add: settlementOrder_def)
  have "mset (filter (\<lambda>c. fst c = ?img) (map fst es)) = mset (filter (\<lambda>c. fst c = ?img) calls)"
    using m by (simp only: mset_filter)
  then have "length (filter (\<lambda>c. fst c = ?img) (map fst es))
             = length (filter (\<lambda>c. fst c = ?img) calls)"
    by (rule mset_eq_length)
  then have once: "length (filter (\<lambda>e. fst (fst e) = ?img) es) = 1"
    using one by (simp add: filter_map comp_def)
  have so: "settledSoFar calls es" and se: "set (map fst es) = set calls"
    using settlementOrder_settledSoFar [OF assms(3) dcalls] by auto
  have "?img \<in> fst ` set calls" using mem fc by (metis set_map)
  then obtain code where "(?img, code) \<in> set (map fst es)" using se by auto
  then obtain r where "((?img, code), r) \<in> set es" by auto
  then have ex: "\<exists>code r. ((?img, code), r) \<in> set es" by blast
  have run: "images (processingRun st es) = settleAll es (images st1)"
    using assms(2) by (simp add: processingRun_def)
  have item: "\<And>code r. ((?img, code), r) \<in> set es \<Longrightarrow>
      images (processingRun st es) ! i = settledItem r (?img\<lparr>status := Processing\<rparr>)"
    unfolding run by (rule run_items(3) [OF assms(1,2) so assms(4,5)])
  show ?thesis
    using one once ex item by (auto simp: settledItem_def catchMessage_def)
qed

theorem rename_outcome_per_item_witness:
  "distinct (map id' (images sampleBatch))
   \<and> snd (handleProcessImages sampleBatch) = Some sampleCalls
   \<and> settlementOrder sampleCalls sampleOrder
   \<and> 1 < length (images sampleBatch) \<and> status (images sampleBatch ! 1) = Pending
   \<and> 2 < length (images sampleBatch) \<and> status (images sampleBatch ! 2) = Pending
   \<and> images (processingRun sampleBatch sampleOrder) ! 1
       = (sampleImage ''1'' ''A1_x.jpg'' Pending)
           \<lparr>status := Completed, newName := js ''A1_front.jpg''\<rparr>
   \<and> images (processingRun sampleBatch sampleOrder) ! 2
       = (sampleImage ''2'' ''A2_y.jpg'' Pending)
           \<lparr>status := Error, errorMessage := Some (js ''quota exceeded'')\<rparr>"
proof -
  have i1: "1 < length (images sampleBatch)" and p1: "status (images sampleBatch ! 1) = Pending"
    and e1: "images sampleBatch ! 1 = sampleImage ''1'' ''A1_x.jpg'' Pending"
    by (simp_all add: sampleBatch_images sampleImage_def)
  have i2: "2 < length (images sampleBatch)" and p2: "status (images sampleBatch ! 2) = Pending"
    and e2: "images sampleBatch ! 2 = sampleImage ''2'' ''A2_y.jpg'' Pending"
    by (simp_all add: sampleBatch_images sampleImage_def)
  have m1: "((images sampleBatch ! 1, js ''A1''), Fulfilled (js '' A1_front.jpg ''))
              \<in> set sampleOrder"
    unfolding e1 by (simp add: sampleOrder_def)
  have m2: "((images sampleBatch ! 2, js ''A2''), Rejected (ErrorInstance (js ''quota exceeded'')))
              \<in> set sampleOrder"
    unfolding e2 by (simp add: sampleOrder_def)
  have t: "trim (js '' A1_front.jpg '') = js ''A1_front.jpg''"
    by (simp add: js_def trim_def isWhiteSpace_unat)
  have "images (processingRun sampleBatch sampleOrder) ! 1
       = (images sampleBatch ! 1)\<lparr>status := Completed, newName := trim (js '' A1_front.jpg '')\<rparr>"
    using rename_outcome_per_item
      [OF sampleBatch_distinct sampleBatch_launch sampleOrder_settles i1 p1] m1
    by blast
  then have c1: "images (processingRun sampleBatch sampleOrder) ! 1
       = (sampleImage ''1'' ''A1_x.jpg'' Pending)
           \<lparr>status := Completed, newName := js ''A1_front.jpg''\<rparr>"
    by (simp only: e1 t)
  have "images (processingRun sampleBatch sampleOrder) ! 2
       = (images sampleBatch ! 2)\<lparr>status := Error, errorMessage := Some (js ''quota exceeded'')\<rparr>"
    using rename_outcome_per_item
      [OF sampleBatch_distinct sampleBatch_launch sampleOrder_settles i2 p2] m2
    by blast
  then have c2: "images (processingRun sampleBatch sampleOrder) ! 2
       = (sampleImage ''2'' ''A2_y.jpg'' Pending)
           \<lparr>status := Error, errorMessage := Some (js ''quota exceeded'')\<rparr>"
    by (simp only: e2)
  have l: "snd (handleProcessImages sampleBatch) = Some sampleCalls"
    by (simp add: sampleBatch_launch)
  show ?thesis
    using sampleBatch_distinct l sampleOrder_settles i1 p1 i2 p2 c1 c2 by (intro conjI)
qed

text \<open>
  C10. With ids distinct, a run changes no item that was not pending when it started, at
  any moment of the run and also when the handler returns early: such an item is the same
  record afterwards, at the same place. One updater changes no item of another id, and
  with distinct ids at most one item has the id it targets.
\<close>

theorem run_changes_only_pending:
  assumes "distinct (map id' (images st))"
    and "case snd (handleProcessImages st) of None \<Rightarrow> True | Some calls \<Rightarrow> settledSoFar calls es"
  shows "length (images (processingRun st es)) = length (images st)
       \<and> (\<forall>i<length (images st). status (images st ! i) \<noteq> Pending \<longrightarrow>
            images (processingRun st es) ! i = images st ! i)
       \<and> (\<forall>c r imgs j. j < length imgs \<and> id' (imgs ! j) \<noteq> id' (fst c) \<longrightarrow>
            settle c r imgs ! j = imgs ! j)
       \<and> (\<forall>c. length (filter (\<lambda>img. id' img = id' (fst c)) (images st)) \<le> 1)"
proof -
  obtain st1 res where h: "handleProcessImages st = (st1, res)"
    by (cases "handleProcessImages st") auto
  have a: "length (images (processingRun st es)) = length (images st)
       \<and> (\<forall>i<length (images st). status (images st ! i) \<noteq> Pending \<longrightarrow>
            images (processingRun st es) ! i = images st ! i)"
  proof (cases res)
    case None
    then show ?thesis
      using h handleProcessImages_NoneD [of st st1] by (simp add: processingRun_def)
  next
    case (Some calls)
    then have so: "settledSoFar calls es" using assms(2) h by simp
    have run: "images (processingRun st es) = settleAll es (images st1)"
      using h Some by (simp add: processingRun_def)
    have hs: "handleProcessImages st = (st1, Some calls)" using h Some by simp
    have "images st1 = markProcessing (images st)"
      using handleProcessImages_SomeD [OF hs] by auto
    then have "length (settleAll es (images st1)) = length (images st)" by simp
    then show ?thesis
      unfolding run using run_items(2) [OF assms(1) hs so] by blast
  qed
  have b: "\<forall>c r imgs j. j < length imgs \<and> id' (imgs ! j) \<noteq> id' (fst c) \<longrightarrow>
            settle c r imgs ! j = imgs ! j"
    by (simp add: settle_conv)
  have c: "\<forall>c. length (filter (\<lambda>img. id' img = id' (fst c)) (images st)) \<le> 1"
  proof
    fix c
    have "length (filter (\<lambda>k. k = id' (fst c)) (map id' (images st)))
            = card ({k. k = id' (fst c)} \<inter> set (map id' (images st)))"
      using assms(1) by (rule distinct_length_filter)
    also have "\<dots> \<le> card {id' (fst c)}"
      by (intro card_mono) auto
    finally show "length (filter (\<lambda>img. id' img = id' (fst c)) (images st)) \<le> 1"
      by (simp add: filter_map comp_def)
  qed
  show ?thesis using a b c by blast
qed

theorem run_changes_only_pending_witness:
  "distinct (map id' (images sampleBatch))
   \<and> snd (handleProcessImages sampleBatch) = Some sampleCalls
   \<and> settledSoFar sampleCalls sampleOrder
   \<and> 0 < length (images sampleBatch) \<and> status (images sampleBatch ! 0) = Completed
   \<and> images (processingRun sampleBatch sampleOrder) ! 0 = images sampleBatch ! 0
   \<and> length (images (processingRun sampleBatch sampleOrder)) = length (images sampleBatch)"
proof -
  have l: "snd (handleProcessImages sampleBatch) = Some sampleCalls"
    by (simp add: sampleBatch_launch)
  have h: "case snd (handleProcessImages sampleBatch) of None \<Rightarrow> True
           | Some calls \<Rightarrow> settledSoFar calls sampleOrder"
    by (simp add: l sampleOrder_so_far)
  have i: "0 < length (images sampleBatch)" and s: "status (images sampleBatch ! 0) = Completed"
    by (simp_all add: sampleBatch_images sampleImage_def)
  then have n: "status (images sampleBatch ! 0) \<noteq> Pending" by simp
  note t = run_changes_only_pending [OF sampleBatch_distinct h]
  have c1: "images (processingRun sampleBatch sampleOrder) ! 0 = images sampleBatch ! 0"
    using t i n by blast
  have c2: "length (images (processingRun sampleBatch sampleOrder)) = length (images sampleBatch)"
    using t by blast
  show ?thesis
    using sampleBatch_distinct l sampleOrder_so_far i s c1 c2 by (intro conjI)
qed

text \<open>
  C6. In a run that starts, the first value of \<open>images\<close> after the one the run found is the
  one in which every pending item is \<open>processing\<close> and every other item is as before; each
  pending item has a call launched for it, and all settlements come after. Along the
  values \<open>images\<close> takes during any run, no item goes from \<open>pending\<close> to anything but
  \<open>processing\<close> in one step, and the items keep their places.
\<close>

theorem pending_goes_through_processing:
  "(\<forall>st1 calls. handleProcessImages st = (st1, Some calls) \<longrightarrow>
       runTrace st es = images st # settleTrace es (images st1)
       \<and> runTrace st es ! 1 = images st1
       \<and> images st1 = markProcessing (images st)
       \<and> (\<forall>i<length (images st). status (images st ! i) = Pending \<longrightarrow>
             status (images st1 ! i) = Processing
             \<and> (\<exists>code. (images st ! i, code) \<in> set calls))
       \<and> (\<forall>i<length (images st). status (images st ! i) \<noteq> Pending \<longrightarrow>
             images st1 ! i = images st ! i))
   \<and> (\<forall>k i. Suc k < length (runTrace st es) \<and> i < length (images st)
          \<and> status (runTrace st es ! k ! i) = Pending \<longrightarrow>
          status (runTrace st es ! Suc k ! i) = Pending
          \<or> status (runTrace st es ! Suc k ! i) = Processing)
   \<and> (\<forall>k<length (runTrace st es). length (runTrace st es ! k) = length (images st))"
proof -
  have p1: "\<forall>st1 calls. handleProcessImages st = (st1, Some calls) \<longrightarrow>
       runTrace st es = images st # settleTrace es (images st1)
       \<and> runTrace st es ! 1 = images st1
       \<and> images st1 = markProcessing (images st)
       \<and> (\<forall>i<length (images st). status (images st ! i) = Pending \<longrightarrow>
             status (images st1 ! i) = Processing
             \<and> (\<exists>code. (images st ! i, code) \<in> set calls))
       \<and> (\<forall>i<length (images st). status (images st ! i) \<noteq> Pending \<longrightarrow>
             images st1 ! i = images st ! i)"
  proof (intro allI impI)
    fix st1 calls
    assume h: "handleProcessImages st = (st1, Some calls)"
    let ?ps = "filter (\<lambda>img. status img = Pending) (images st)"
    have tr: "runTrace st es = images st # settleTrace es (images st1)"
      using h by (simp add: runTrace_def)
    have t2: "runTrace st es ! 1 = images st1" by (simp add: tr)
    have mp: "images st1 = markProcessing (images st)"
      using handleProcessImages_SomeD [OF h] by auto
    have fc: "map fst calls = ?ps" using h by (rule launched_ids)
    have t4: "\<forall>i<length (images st). status (images st ! i) = Pending \<longrightarrow>
             status (images st1 ! i) = Processing
             \<and> (\<exists>code. (images st ! i, code) \<in> set calls)"
    proof (intro allI impI)
      fix i
      assume i: "i < length (images st)" and p: "status (images st ! i) = Pending"
      have "images st ! i \<in> set ?ps" using i p by simp
      then have "images st ! i \<in> fst ` set calls" using fc by (metis set_map)
      then have "\<exists>code. (images st ! i, code) \<in> set calls" by force
      then show "status (images st1 ! i) = Processing
             \<and> (\<exists>code. (images st ! i, code) \<in> set calls)"
        using i p by (simp add: mp markProcessing_nth)
    qed
    have t5: "\<forall>i<length (images st). status (images st ! i) \<noteq> Pending \<longrightarrow>
             images st1 ! i = images st ! i"
      by (simp add: mp markProcessing_nth)
    show "runTrace st es = images st # settleTrace es (images st1)
       \<and> runTrace st es ! 1 = images st1
       \<and> images st1 = markProcessing (images st)
       \<and> (\<forall>i<length (images st). status (images st ! i) = Pending \<longrightarrow>
             status (images st1 ! i) = Processing
             \<and> (\<exists>code. (images st ! i, code) \<in> set calls))
       \<and> (\<forall>i<length (images st). status (images st ! i) \<noteq> Pending \<longrightarrow>
             images st1 ! i = images st ! i)"
      using tr t2 mp t4 t5 by (intro conjI)
  qed
  obtain st1 res where h: "handleProcessImages st = (st1, res)"
    by (cases "handleProcessImages st") auto
  have tr: "(res = None \<and> runTrace st es = [images st, images st])
            \<or> runTrace st es = images st # settleTrace es (markProcessing (images st))"
  proof (cases res)
    case None
    then show ?thesis
      using h handleProcessImages_NoneD [of st st1] by (simp add: runTrace_def)
  next
    case (Some calls)
    then have hs: "handleProcessImages st = (st1, Some calls)" using h by simp
    have "images st1 = markProcessing (images st)"
      using handleProcessImages_SomeD [OF hs] by auto
    then show ?thesis using hs by (simp add: runTrace_def)
  qed
  have later: "\<And>j. runTrace st es = images st # settleTrace es (markProcessing (images st)) \<Longrightarrow>
      Suc j < length (runTrace st es) \<Longrightarrow>
      (\<forall>img\<in>set (runTrace st es ! Suc j). status img \<noteq> Pending)
      \<and> length (runTrace st es ! Suc j) = length (images st)"
  proof -
    fix j
    assume t: "runTrace st es = images st # settleTrace es (markProcessing (images st))"
      and j: "Suc j < length (runTrace st es)"
    then have "settleTrace es (markProcessing (images st)) ! j
                 \<in> set (settleTrace es (markProcessing (images st)))"
      by simp
    then show "(\<forall>img\<in>set (runTrace st es ! Suc j). status img \<noteq> Pending)
      \<and> length (runTrace st es ! Suc j) = length (images st)"
      using settleTrace_no_pending [OF markProcessing_no_pending] t by simp
  qed
  have p2: "\<forall>k i. Suc k < length (runTrace st es) \<and> i < length (images st)
          \<and> status (runTrace st es ! k ! i) = Pending \<longrightarrow>
          status (runTrace st es ! Suc k ! i) = Pending
          \<or> status (runTrace st es ! Suc k ! i) = Processing"
  proof (intro allI impI)
    fix k i
    assume a: "Suc k < length (runTrace st es) \<and> i < length (images st)
          \<and> status (runTrace st es ! k ! i) = Pending"
    from tr show "status (runTrace st es ! Suc k ! i) = Pending
          \<or> status (runTrace st es ! Suc k ! i) = Processing"
    proof
      assume "res = None \<and> runTrace st es = [images st, images st]"
      then have t: "runTrace st es = [images st, images st]" by simp
      then have "k = 0" using a by simp
      then show ?thesis using a t by simp
    next
      assume t: "runTrace st es = images st # settleTrace es (markProcessing (images st))"
      show ?thesis
      proof (cases k)
        case 0
        then show ?thesis using a by (simp add: t markProcessing_nth)
      next
        case (Suc j)
        then have "Suc j < length (runTrace st es)" using a by simp
        from later [OF t this] have np: "\<forall>img\<in>set (runTrace st es ! k). status img \<noteq> Pending"
          and l: "length (runTrace st es ! k) = length (images st)"
          using Suc by simp_all
        have "runTrace st es ! k ! i \<in> set (runTrace st es ! k)" using a l by simp
        then show ?thesis using np a by blast
      qed
    qed
  qed
  have p3: "\<forall>k<length (runTrace st es). length (runTrace st es ! k) = length (images st)"
  proof (intro allI impI)
    fix k
    assume k: "k < length (runTrace st es)"
    from tr show "length (runTrace st es ! k) = length (images st)"
    proof
      assume "res = None \<and> runTrace st es = [images st, images st]"
      then show ?thesis using k by (cases k) auto
    next
      assume t: "runTrace st es = images st # settleTrace es (markProcessing (images st))"
      show ?thesis
      proof (cases k)
        case 0
        then show ?thesis by (simp add: t)
      next
        case (Suc j)
        then show ?thesis using later [OF t] k by simp
      qed
    qed
  qed
  show ?thesis using p1 p2 p3 by (intro conjI)
qed

theorem pending_goes_through_processing_witness:
  "snd (handleProcessImages sampleBatch) = Some sampleCalls
   \<and> runTrace sampleBatch sampleOrder ! 1 = markProcessing (images sampleBatch)
   \<and> 1 < length (images sampleBatch)
   \<and> status (images sampleBatch ! 1) = Pending
   \<and> status (markProcessing (images sampleBatch) ! 1) = Processing
   \<and> Suc 0 < length (runTrace sampleBatch sampleOrder)
   \<and> status (runTrace sampleBatch sampleOrder ! 0 ! 1) = Pending
   \<and> status (runTrace sampleBatch sampleOrder ! Suc 0 ! 1) = Processing"
proof -
  let ?st1 = "sampleBatch\<lparr>error := None, isProcessing := True,
                          images := markProcessing (images sampleBatch)\<rparr>"
  have l: "snd (handleProcessImages sampleBatch) = Some sampleCalls"
    by (simp add: sampleBatch_launch)
  have i: "1 < length (images sampleBatch)" and p: "status (images sampleBatch ! 1) = Pending"
    by (simp_all add: sampleBatch_images sampleImage_def)
  note t = pending_goes_through_processing [of sampleBatch sampleOrder]
  have a: "runTrace sampleBatch sampleOrder
             = images sampleBatch # settleTrace sampleOrder (images ?st1)
       \<and> runTrace sampleBatch sampleOrder ! 1 = images ?st1
       \<and> (\<forall>i<length (images sampleBatch). status (images sampleBatch ! i) = Pending \<longrightarrow>
             status (images ?st1 ! i) = Processing
             \<and> (\<exists>code. (images sampleBatch ! i, code) \<in> set sampleCalls))"
    using t sampleBatch_launch by blast
  then have c1: "runTrace sampleBatch sampleOrder ! 1 = markProcessing (images sampleBatch)"
    by simp
  have c2: "status (markProcessing (images sampleBatch) ! 1) = Processing"
    using a i p by simp
  have c3: "Suc 0 < length (runTrace sampleBatch sampleOrder)"
    using a by (simp add: Suc_le_eq)
  have c4: "status (runTrace sampleBatch sampleOrder ! 0 ! 1) = Pending"
    using a p by simp
  have "status (runTrace sampleBatch sampleOrder ! Suc 0 ! 1) = Pending
        \<or> status (runTrace sampleBatch sampleOrder ! Suc 0 ! 1) = Processing"
    using t c3 i c4 by blast
  then have c5: "status (runTrace sampleBatch sampleOrder ! Suc 0 ! 1) = Processing"
    using c1 c2 by simp
  show ?thesis using l c1 i p c2 c3 c4 c5 by (intro conjI)
qed

section \<open>The item invariant: the claim\<close>

text \<open>
  C4. The claim as stated fails when the service answers with white space only: the item
  ends \<open>completed\<close> with an empty \<open>newName\<close> and no \<open>errorMessage\<close>, so neither is set.
\<close>

theorem completed_with_empty_name_counterexample:
  "steps [FilesSelected [sampleFile], CodesChanged (js ''L1''),
          ProcessImages [((newImage sampleFile, js ''L1''), Fulfilled (js ''  ''))]]
     initialState
     = Some \<lparr>images = [(newImage sampleFile)\<lparr>status := Completed\<rparr>], itemCodes = js ''L1'',
             error = None, isProcessing = False\<rparr>
   \<and> newName ((newImage sampleFile)\<lparr>status := Completed\<rparr>) = []
   \<and> errorMessage ((newImage sampleFile)\<lparr>status := Completed\<rparr>) = None"
proof -
  have t: "trim (js ''  '') = []" by (simp add: js_def trim_def isWhiteSpace_unat)
  have "settledItem (Fulfilled (js ''  '')) ((newImage sampleFile)\<lparr>status := Processing\<rparr>)
          = (newImage sampleFile)\<lparr>status := Completed\<rparr>"
    using sampleLoaded_item by (simp add: settledItem_def t)
  then show ?thesis
    using sampleLoaded_run [of "Fulfilled (js ''  '')"] sampleLoaded_item by simp
qed

text \<open>
  C4, as amended. In every state reached from the initial one by selecting files (with
  new ids), editing the codes, runs started from the button and clearing, and at every
  moment of a run started there: a pending or processing item has an empty \<open>newName\<close> and
  no \<open>errorMessage\<close>; a completed item has no \<open>errorMessage\<close> and its \<open>newName\<close> is the trimmed
  answer of a fulfilled call for it, so it is non-empty unless that answer was blank; an
  error item has an empty \<open>newName\<close> and its \<open>errorMessage\<close> is what line 108 makes of the
  rejection of a call for it, so it is set, and non-empty unless an \<open>Error\<close> with an empty
  message was caught. So no item has both a non-empty \<open>newName\<close> and an \<open>errorMessage\<close>, and
  after a complete run every item that was pending is completed or error, with the fields
  its own settlement gives.
\<close>

theorem item_invariant_reachable:
  assumes "steps evs initialState = Some st"
  shows "(\<forall>img\<in>set (images st).
            itemInvariant (settlementsOf evs) img
            \<and> \<not> (newName img \<noteq> [] \<and> errorMessage img \<noteq> None))
       \<and> (\<forall>st1 calls es. handleProcessImages st = (st1, Some calls) \<and> settledSoFar calls es \<longrightarrow>
            (\<forall>img\<in>set (settleAll es (images st1)).
               itemInvariant (settlementsOf evs @ es) img
               \<and> \<not> (newName img \<noteq> [] \<and> errorMessage img \<noteq> None)))
       \<and> (\<forall>st1 calls es i. handleProcessImages st = (st1, Some calls)
              \<and> settlementOrder calls es \<and> i < length (images st)
              \<and> status (images st ! i) = Pending \<longrightarrow>
            (status (images (processingRun st es) ! i) = Completed
             \<or> status (images (processingRun st es) ! i) = Error)
            \<and> (\<forall>code name. ((images st ! i, code), Fulfilled name) \<in> set es \<longrightarrow>
                  status (images (processingRun st es) ! i) = Completed
                  \<and> newName (images (processingRun st es) ! i) = trim name
                  \<and> errorMessage (images (processingRun st es) ! i) = None)
            \<and> (\<forall>code err. ((images st ! i, code), Rejected err) \<in> set es \<longrightarrow>
                  status (images (processingRun st es) ! i) = Error
                  \<and> newName (images (processingRun st es) ! i) = []
                  \<and> errorMessage (images (processingRun st es) ! i) = Some (catchMessage err)))"
proof -
  have "distinct (map id' (images (initialState :: 'a app_state)))
        \<and> (\<forall>img\<in>set (images (initialState :: 'a app_state)). itemInvariant [] img)"
    by (simp add: initialState_def)
  then have "distinct (map id' (images st))
        \<and> (\<forall>img\<in>set (images st). itemInvariant ([] @ settlementsOf evs) img)"
    using assms by (rule steps_invariant)
  then have d: "distinct (map id' (images st))"
    and inv: "\<forall>img\<in>set (images st). itemInvariant (settlementsOf evs) img"
    by simp_all
  have p1: "\<forall>img\<in>set (images st).
            itemInvariant (settlementsOf evs) img
            \<and> \<not> (newName img \<noteq> [] \<and> errorMessage img \<noteq> None)"
    using inv itemInvariant_not_both by blast
  have p2: "\<forall>st1 calls es. handleProcessImages st = (st1, Some calls) \<and> settledSoFar calls es \<longrightarrow>
            (\<forall>img\<in>set (settleAll es (images st1)).
               itemInvariant (settlementsOf evs @ es) img
               \<and> \<not> (newName img \<noteq> [] \<and> errorMessage img \<noteq> None))"
  proof (intro allI impI)
    fix st1 calls es
    assume a: "handleProcessImages st = (st1, Some calls) \<and> settledSoFar calls es"
    have "\<forall>img\<in>set (settleAll es (images st1)). itemInvariant (settlementsOf evs @ es) img"
      using d inv a by (intro run_invariant) auto
    then show "\<forall>img\<in>set (settleAll es (images st1)).
               itemInvariant (settlementsOf evs @ es) img
               \<and> \<not> (newName img \<noteq> [] \<and> errorMessage img \<noteq> None)"
      using itemInvariant_not_both by blast
  qed
  have p3: "\<forall>st1 calls es i. handleProcessImages st = (st1, Some calls)
              \<and> settlementOrder calls es \<and> i < length (images st)
              \<and> status (images st ! i) = Pending \<longrightarrow>
            (status (images (processingRun st es) ! i) = Completed
             \<or> status (images (processingRun st es) ! i) = Error)
            \<and> (\<forall>code name. ((images st ! i, code), Fulfilled name) \<in> set es \<longrightarrow>
                  status (images (processingRun st es) ! i) = Completed
                  \<and> newName (images (processingRun st es) ! i) = trim name
                  \<and> errorMessage (images (processingRun st es) ! i) = None)
            \<and> (\<forall>code err. ((images st ! i, code), Rejected err) \<in> set es \<longrightarrow>
                  status (images (processingRun st es) ! i) = Error
                  \<and> newName (images (processingRun st es) ! i) = []
                  \<and> errorMessage (images (processingRun st es) ! i) = Some (catchMessage err))"
  proof (intro allI impI)
    fix st1 calls es i
    assume a: "handleProcessImages st = (st1, Some calls)
              \<and> settlementOrder calls es \<and> i < length (images st)
              \<and> status (images st ! i) = Pending"
    then have h: "handleProcessImages st = (st1, Some calls)"
      and o: "settlementOrder calls es" and i: "i < length (images st)"
      and p: "status (images st ! i) = Pending"
      by simp_all
    have t1: "status (images (processingRun st es) ! i) = Completed
             \<or> status (images (processingRun st es) ! i) = Error"
      using d inv h o i p by (rule run_terminal)
    have t2: "\<forall>code name. ((images st ! i, code), Fulfilled name) \<in> set es \<longrightarrow>
                  status (images (processingRun st es) ! i) = Completed
                  \<and> newName (images (processingRun st es) ! i) = trim name
                  \<and> errorMessage (images (processingRun st es) ! i) = None"
      using run_settled_fields(1) [OF d inv h o i p] by blast
    have t3: "\<forall>code err. ((images st ! i, code), Rejected err) \<in> set es \<longrightarrow>
                  status (images (processingRun st es) ! i) = Error
                  \<and> newName (images (processingRun st es) ! i) = []
                  \<and> errorMessage (images (processingRun st es) ! i) = Some (catchMessage err)"
      using run_settled_fields(2) [OF d inv h o i p] by blast
    show "(status (images (processingRun st es) ! i) = Completed
             \<or> status (images (processingRun st es) ! i) = Error)
            \<and> (\<forall>code name. ((images st ! i, code), Fulfilled name) \<in> set es \<longrightarrow>
                  status (images (processingRun st es) ! i) = Completed
                  \<and> newName (images (processingRun st es) ! i) = trim name
                  \<and> errorMessage (images (processingRun st es) ! i) = None)
            \<and> (\<forall>code err. ((images st ! i, code), Rejected err) \<in> set es \<longrightarrow>
                  status (images (processingRun st es) ! i) = Error
                  \<and> newName (images (processingRun st es) ! i) = []
                  \<and> errorMessage (images (processingRun st es) ! i) = Some (catchMessage err))"
      using t1 t2 t3 by (intro conjI)
  qed
  show ?thesis using p1 p2 p3 by (intro conjI)
qed

theorem item_invariant_reachable_witness:
  "steps [FilesSelected [sampleFile], CodesChanged (js ''L1''),
          ProcessImages [((newImage sampleFile, js ''L1''), Fulfilled (js '' L1_front.jpg''))]]
     initialState
     = Some \<lparr>images = [(newImage sampleFile)\<lparr>status := Completed,
                                               newName := js ''L1_front.jpg''\<rparr>],
             itemCodes = js ''L1'', error = None, isProcessing = False\<rparr>
   \<and> itemInvariant
        (settlementsOf [FilesSelected [sampleFile], CodesChanged (js ''L1''),
          ProcessImages [((newImage sampleFile, js ''L1''), Fulfilled (js '' L1_front.jpg''))]])
        ((newImage sampleFile)\<lparr>status := Completed, newName := js ''L1_front.jpg''\<rparr>)
   \<and> errorMessage ((newImage sampleFile)\<lparr>status := Completed,
                                          newName := js ''L1_front.jpg''\<rparr>) = None"
proof -
  let ?evs = "[FilesSelected [sampleFile], CodesChanged (js ''L1''),
          ProcessImages [((newImage sampleFile, js ''L1''), Fulfilled (js '' L1_front.jpg''))]]"
  let ?item = "(newImage sampleFile)\<lparr>status := Completed, newName := js ''L1_front.jpg''\<rparr>"
  have t: "trim (js '' L1_front.jpg'') = js ''L1_front.jpg''"
    by (simp add: js_def trim_def isWhiteSpace_unat)
  have "settledItem (Fulfilled (js '' L1_front.jpg''))
          ((newImage sampleFile)\<lparr>status := Processing\<rparr>) = ?item"
    by (simp add: settledItem_def t)
  then have r: "steps ?evs initialState
     = Some \<lparr>images = [?item], itemCodes = js ''L1'', error = None, isProcessing = False\<rparr>"
    using sampleLoaded_run [of "Fulfilled (js '' L1_front.jpg'')"] by simp
  have "\<forall>img\<in>set (images \<lparr>images = [?item], itemCodes = js ''L1'', error = None,
                            isProcessing = False\<rparr>).
          itemInvariant (settlementsOf ?evs) img
          \<and> \<not> (newName img \<noteq> [] \<and> errorMessage img \<noteq> None)"
    using item_invariant_reachable [OF r] by blast
  then have "itemInvariant (settlementsOf ?evs) ?item" by simp
  moreover have "errorMessage ?item = None" using sampleLoaded_item by simp
  ultimately show ?thesis using r by blast
qed

end
